theory Spec2Isabelle
  imports Main
begin

section \<open>Data model of src/minesweeper.tsx\<close>

text \<open>
  The component keeps a grid of cells, a game status and a first-click marker in React
  state. Handlers are modelled as functions from the state before the gesture to the
  state after it. Rows and columns are JavaScript numbers that may leave the grid
  (\<open>row + dr\<close> with \<open>dr = -1\<close>), so coordinates are integers.
\<close>

record CellState =
  isMine :: bool
  isRevealed :: bool
  isFlagged :: bool
  neighborMines :: nat

datatype GameStatus = Playing | Won | Lost

record Difficulty =
  name :: string
  rows :: nat
  cols :: nat
  mines :: nat

definition beginner :: Difficulty where
  "beginner = \<lparr>name = ''Beginner'', rows = 9, cols = 9, mines = 10\<rparr>"

definition intermediate :: Difficulty where
  "intermediate = \<lparr>name = ''Intermediate'', rows = 16, cols = 16, mines = 40\<rparr>"

definition expert :: Difficulty where
  "expert = \<lparr>name = ''Expert'', rows = 16, cols = 30, mines = 99\<rparr>"

type_synonym Grid = "CellState list list"

text \<open>
  \<open>randomSource\<close> is not React state: it holds the upcoming outputs of the random source,
  each entry one pair \<open>(Math.floor(Math.random() * rows), Math.floor(Math.random() * cols))\<close>
  as the placement loop draws them. A finite list is the fuel of that loop.
\<close>

record GameState =
  grid :: Grid
  gameStatus :: GameStatus
  timer :: nat
  isTimerRunning :: bool
  firstClick :: bool
  randomSource :: "(nat \<times> nat) list"

text \<open>
  Reading a property of \<open>undefined\<close> throws a TypeError. \<open>Pending\<close> is the outcome of a
  loop that is still running when the supplied random draws are used up.
\<close>

datatype error = TypeError

datatype 'a result = Ok 'a | Throws error | Pending

definition andThen :: "'a result \<Rightarrow> ('a \<Rightarrow> 'b result) \<Rightarrow> 'b result" where
  "andThen m f = (case m of Ok x \<Rightarrow> f x | Throws e \<Rightarrow> Throws e | Pending \<Rightarrow> Pending)"

text \<open>A \<open>for\<close> loop over the values \<open>xs\<close> whose body may throw.\<close>

fun forEach :: "'a list \<Rightarrow> ('a \<Rightarrow> 's \<Rightarrow> 's result) \<Rightarrow> 's \<Rightarrow> 's result" where
  "forEach [] body s = Ok s"
| "forEach (x # xs) body s = andThen (body x s) (forEach xs body)"

text \<open>
  \<open>grid[row][col]\<close>: \<open>None\<close> stands for \<open>undefined\<close> (the row or the column is missing), on
  which the next property access throws.
\<close>

definition cellAt :: "Grid \<Rightarrow> int \<Rightarrow> int \<Rightarrow> CellState option" where
  "cellAt g row col =
     (if 0 \<le> row \<and> nat row < length g \<and> 0 \<le> col \<and> nat col < length (g ! nat row)
      then Some (g ! nat row ! nat col) else None)"

text \<open>The in-place write to a cell that has been read before.\<close>

definition updCell :: "Grid \<Rightarrow> int \<Rightarrow> int \<Rightarrow> (CellState \<Rightarrow> CellState) \<Rightarrow> Grid" where
  "updCell g row col f = g[nat row := (g ! nat row)[nat col := f (g ! nat row ! nat col)]]"

text \<open>The bounds test \<open>nr >= 0 && nr < rows && nc >= 0 && nc < cols\<close>.\<close>

definition inGrid :: "Difficulty \<Rightarrow> int \<Rightarrow> int \<Rightarrow> bool" where
  "inGrid d nr nc = (nr \<ge> 0 \<and> nr < int (rows d) \<and> nc \<ge> 0 \<and> nc < int (cols d))"

text \<open>The nested loops \<open>for dr = -1..1, for dc = -1..1\<close>, in their order.\<close>

definition offsets :: "(int \<times> int) list" where
  "offsets = [(-1, -1), (-1, 0), (-1, 1), (0, -1), (0, 0), (0, 1), (1, -1), (1, 0), (1, 1)]"

section \<open>initializeGrid\<close>

definition emptyCell :: CellState where
  "emptyCell = \<lparr>isMine = False, isRevealed = False, isFlagged = False, neighborMines = 0\<rparr>"

definition emptyGrid :: "Difficulty \<Rightarrow> Grid" where
  "emptyGrid d = replicate (rows d) (replicate (cols d) emptyCell)"

text \<open>
  \<open>minePositions\<close> is a JavaScript Set of keys \<open>row-col\<close>; the key of a pair of naturals
  determines the pair, so the set is kept as the list of its pairs in insertion order.
\<close>

definition setAdd :: "'a \<Rightarrow> 'a list \<Rightarrow> 'a list" where
  "setAdd k ks = (if k \<in> set ks then ks else ks @ [k])"

fun placeMines ::
  "Difficulty \<Rightarrow> int option \<Rightarrow> int option \<Rightarrow> (nat \<times> nat) list \<Rightarrow> (nat \<times> nat) list
   \<Rightarrow> ((nat \<times> nat) list \<times> (nat \<times> nat) list) result" where
  "placeMines d avoidRow avoidCol minePositions [] =
     (if length minePositions < mines d then Pending else Ok (minePositions, []))"
| "placeMines d avoidRow avoidCol minePositions ((row, col) # rest) =
     (if length minePositions < mines d then
        (if avoidRow \<noteq> None \<and> avoidCol \<noteq> None
            \<and> Some (int row) = avoidRow \<and> Some (int col) = avoidCol
         then placeMines d avoidRow avoidCol minePositions rest
         else placeMines d avoidRow avoidCol (setAdd (row, col) minePositions) rest)
      else Ok (minePositions, (row, col) # rest))"

definition setMine :: "nat \<times> nat \<Rightarrow> Grid \<Rightarrow> Grid result" where
  "setMine pos g =
     (case pos of (row, col) \<Rightarrow>
        (case cellAt g (int row) (int col) of
           None \<Rightarrow> Throws TypeError
         | Some cell \<Rightarrow> Ok (updCell g (int row) (int col) (\<lambda>c. c\<lparr>isMine := True\<rparr>))))"

definition countStep :: "Difficulty \<Rightarrow> Grid \<Rightarrow> int \<Rightarrow> int \<Rightarrow> int \<times> int \<Rightarrow> nat \<Rightarrow> nat result" where
  "countStep d g row col off count =
     (case off of (dr, dc) \<Rightarrow>
        (let nr = row + dr; nc = col + dc in
         if inGrid d nr nc then
           (case cellAt g nr nc of
              None \<Rightarrow> Throws TypeError
            | Some cell \<Rightarrow> Ok (if isMine cell then count + 1 else count))
         else Ok count))"

definition calcCell :: "Difficulty \<Rightarrow> int \<times> int \<Rightarrow> Grid \<Rightarrow> Grid result" where
  "calcCell d pos g =
     (case pos of (row, col) \<Rightarrow>
        (case cellAt g row col of
           None \<Rightarrow> Throws TypeError
         | Some cell \<Rightarrow>
             if \<not> isMine cell then
               andThen (forEach offsets (countStep d g row col) 0)
                 (\<lambda>count. Ok (updCell g row col (\<lambda>c. c\<lparr>neighborMines := count\<rparr>)))
             else Ok g))"

text \<open>The positions the loops \<open>for row < rows, for col < cols\<close> visit, in their order.\<close>

definition positions :: "Difficulty \<Rightarrow> (int \<times> int) list" where
  "positions d = concat (map (\<lambda>row. map (\<lambda>col. (int row, int col)) [0..<cols d]) [0..<rows d])"

definition initializeGrid ::
  "Difficulty \<Rightarrow> int option \<Rightarrow> int option \<Rightarrow> (nat \<times> nat) list
   \<Rightarrow> (Grid \<times> (nat \<times> nat) list) result" where
  "initializeGrid d avoidRow avoidCol draws =
     andThen (placeMines d avoidRow avoidCol [] draws) (\<lambda>(minePositions, rest).
     andThen (forEach minePositions setMine (emptyGrid d)) (\<lambda>mined.
     andThen (forEach (positions d) (calcCell d) mined) (\<lambda>newGrid.
     Ok (newGrid, rest))))"

section \<open>revealCell\<close>

definition revealAllMines :: "Grid \<Rightarrow> Grid" where
  "revealAllMines g = map (map (\<lambda>cell. if isMine cell then cell\<lparr>isRevealed := True\<rparr> else cell)) g"

text \<open>
  One pass of the two inner \<open>for\<close> loops of the flood fill, for the cell \<open>(r, c)\<close> taken
  from the queue; the loop state is the grid together with the queue.
\<close>

definition expandStep ::
  "Difficulty \<Rightarrow> int \<Rightarrow> int \<Rightarrow> int \<times> int \<Rightarrow> Grid \<times> (int \<times> int) list
   \<Rightarrow> (Grid \<times> (int \<times> int) list) result" where
  "expandStep d r c off s =
     (case off of (dr, dc) \<Rightarrow> (case s of (g, queue) \<Rightarrow>
        (let nr = r + dr; nc = c + dc in
         if inGrid d nr nc then
           (case cellAt g nr nc of
              None \<Rightarrow> Throws TypeError
            | Some neighborCell \<Rightarrow>
                if \<not> isRevealed neighborCell \<and> \<not> isFlagged neighborCell \<and> \<not> isMine neighborCell
                then Ok (updCell g nr nc (\<lambda>c. c\<lparr>isRevealed := True\<rparr>),
                         if neighborMines neighborCell = 0 then queue @ [(nr, nc)] else queue)
                else Ok (g, queue))
         else Ok (g, queue))))"

definition hidden :: "Grid \<Rightarrow> nat" where
  "hidden g = length (filter (\<lambda>c. \<not> isRevealed c) (concat g))"

lemma andThen_Ok_iff:
  "andThen m f = Ok y \<longleftrightarrow> (\<exists>x. m = Ok x \<and> f x = Ok y)"
  by (cases m) (simp_all add: andThen_def)

lemma cellAt_Some_iff:
  "cellAt g row col = Some cell \<longleftrightarrow>
     0 \<le> row \<and> nat row < length g \<and> 0 \<le> col \<and> nat col < length (g ! nat row)
       \<and> cell = g ! nat row ! nat col"
  by (auto simp: cellAt_def)

lemma filter_update_length:
  "i < length xs \<Longrightarrow>
     length (filter P (xs[i := y])) + (if P (xs ! i) then 1 else 0)
       = length (filter P xs) + (if P y then 1 else 0)"
proof (induction xs arbitrary: i)
  case Nil
  then show ?case by simp
next
  case (Cons x xs)
  then show ?case by (cases i) auto
qed

lemma concat_update_filter_length:
  "i < length g \<Longrightarrow>
     length (filter P (concat (g[i := r]))) + length (filter P (g ! i))
       = length (filter P (concat g)) + length (filter P r)"
proof (induction g arbitrary: i)
  case Nil
  then show ?case by simp
next
  case (Cons x g)
  show ?case
  proof (cases i)
    case 0
    then show ?thesis by simp
  next
    case (Suc j)
    with Cons.prems have "j < length g" by simp
    from Cons.IH[OF this] Suc show ?thesis by simp
  qed
qed

lemma updCell_count:
  assumes "cellAt g row col = Some cell"
  shows "length (filter P (concat (updCell g row col f))) + (if P cell then 1 else 0)
           = length (filter P (concat g)) + (if P (f cell) then 1 else 0)"
proof -
  from assms have r: "nat row < length g" and c: "nat col < length (g ! nat row)"
    and cell: "cell = g ! nat row ! nat col"
    by (simp_all add: cellAt_Some_iff)
  have "length (filter P (concat (updCell g row col f))) + length (filter P (g ! nat row))
          = length (filter P (concat g)) + length (filter P ((g ! nat row)[nat col := f cell]))"
    unfolding updCell_def cell by (rule concat_update_filter_length[OF r])
  moreover have "length (filter P ((g ! nat row)[nat col := f cell])) + (if P cell then 1 else 0)
          = length (filter P (g ! nat row)) + (if P (f cell) then 1 else 0)"
    unfolding cell by (rule filter_update_length[OF c])
  ultimately show ?thesis by linarith
qed

lemma expandStep_hidden:
  assumes "expandStep d r c off (g, q) = Ok (g', q')"
  shows "hidden g' \<le> hidden g \<and> hidden g' + length q' \<le> hidden g + length q"
proof -
  obtain dr dc where off: "off = (dr, dc)" by (cases off)
  show ?thesis
  proof (cases "inGrid d (r + dr) (c + dc)")
    case False
    with assms off show ?thesis by (simp add: expandStep_def Let_def)
  next
    case True
    show ?thesis
    proof (cases "cellAt g (r + dr) (c + dc)")
      case None
      with assms off True show ?thesis by (simp add: expandStep_def Let_def)
    next
      case (Some nb)
      show ?thesis
      proof (cases "\<not> isRevealed nb \<and> \<not> isFlagged nb \<and> \<not> isMine nb")
        case False
        with assms off True Some show ?thesis by (auto simp: expandStep_def Let_def)
      next
        case open_cell: True
        from updCell_count[OF Some, of "\<lambda>c. \<not> isRevealed c" "\<lambda>c. c\<lparr>isRevealed := True\<rparr>"] open_cell
        have "hidden (updCell g (r + dr) (c + dc) (\<lambda>c. c\<lparr>isRevealed := True\<rparr>)) + 1 = hidden g"
          by (simp add: hidden_def)
        with assms off True Some open_cell show ?thesis
          by (auto simp: expandStep_def Let_def split: if_splits)
      qed
    qed
  qed
qed

lemma expand_hidden:
  "forEach offs (expandStep d r c) (g, q) = Ok (g', q') \<Longrightarrow>
     hidden g' \<le> hidden g \<and> hidden g' + length q' \<le> hidden g + length q"
proof (induction offs arbitrary: g q)
  case Nil
  then show ?case by simp
next
  case (Cons off offs)
  from Cons.prems obtain g1 q1 where
    step: "expandStep d r c off (g, q) = Ok (g1, q1)"
    and rest: "forEach offs (expandStep d r c) (g1, q1) = Ok (g', q')"
    by (auto simp: andThen_Ok_iff)
  from expandStep_hidden[OF step] Cons.IH[OF rest] show ?case by linarith
qed

text \<open>
  The \<open>while (queue.length > 0)\<close> loop: \<open>queue.shift()\<close> takes the head, a visited cell is
  skipped, otherwise the nine offsets are scanned and cells pushed at the end of the queue.
\<close>

function floodFill ::
  "Difficulty \<Rightarrow> Grid \<Rightarrow> (int \<times> int) list \<Rightarrow> (int \<times> int) list \<Rightarrow> Grid result" where
  "floodFill d g [] visited = Ok g"
| "floodFill d g ((r, c) # queue) visited =
     (if (r, c) \<in> set visited then floodFill d g queue visited
      else (case forEach offsets (expandStep d r c) (g, queue) of
              Ok (g', queue') \<Rightarrow> floodFill d g' queue' ((r, c) # visited)
            | Throws e \<Rightarrow> Throws e
            | Pending \<Rightarrow> Pending))"
  by pat_completeness auto
termination
proof (relation "measure (\<lambda>(d, g, queue, visited). 2 * hidden g + length queue)", goal_cases)
  case 1
  then show ?case by simp
next
  case (2 d g r c queue visited)
  then show ?case by simp
next
  case (3 d g r c queue visited x2 g' queue')
  then have "forEach offsets (expandStep d r c) (g, queue) = Ok (g', queue')" by simp
  from expand_hidden[OF this] show ?case by simp
qed

text \<open>
  The function handed to \<open>setGrid\<close> by \<open>revealCell\<close>. \<open>firstClick\<close> is the value the handler
  closed over; \<open>st\<close> carries the grid the updater receives.
\<close>

definition revealCellUpdater :: "Difficulty \<Rightarrow> bool \<Rightarrow> int \<Rightarrow> int \<Rightarrow> GameState \<Rightarrow> GameState result" where
  "revealCellUpdater d first row col st =
     (if first then
        andThen (initializeGrid d (Some row) (Some col) (randomSource st)) (\<lambda>(regeneratedGrid, rest).
          Ok (st\<lparr>firstClick := False, isTimerRunning := True,
                  grid := regeneratedGrid, randomSource := rest\<rparr>))
      else
        (case cellAt (grid st) row col of
           None \<Rightarrow> Throws TypeError
         | Some cell \<Rightarrow>
             if isRevealed cell \<or> isFlagged cell then Ok st
             else
               (let newGrid = updCell (grid st) row col (\<lambda>c. c\<lparr>isRevealed := True\<rparr>) in
                if isMine cell then
                  Ok (st\<lparr>gameStatus := Lost, isTimerRunning := False,
                          grid := revealAllMines newGrid\<rparr>)
                else if neighborMines cell = 0 then
                  andThen (floodFill d newGrid [(row, col)] [])
                    (\<lambda>filled. Ok (st\<lparr>grid := filled\<rparr>))
                else Ok (st\<lparr>grid := newGrid\<rparr>))))"

definition revealCell :: "Difficulty \<Rightarrow> GameState \<Rightarrow> int \<Rightarrow> int \<Rightarrow> GameState result" where
  "revealCell d st row col =
     (if gameStatus st \<noteq> Playing then Ok st
      else revealCellUpdater d (firstClick st) row col st)"

section \<open>toggleFlag, revealAdjacent, resetGame and the win check\<close>

definition toggleFlag :: "GameState \<Rightarrow> int \<Rightarrow> int \<Rightarrow> GameState result" where
  "toggleFlag st row col =
     (if gameStatus st \<noteq> Playing then Ok st
      else
        (case cellAt (grid st) row col of
           None \<Rightarrow> Throws TypeError
         | Some cell \<Rightarrow>
             if \<not> isRevealed cell
             then Ok (st\<lparr>grid := updCell (grid st) row col (\<lambda>c. c\<lparr>isFlagged := \<not> isFlagged c\<rparr>)\<rparr>)
             else Ok st))"

definition flagStep :: "Difficulty \<Rightarrow> Grid \<Rightarrow> int \<Rightarrow> int \<Rightarrow> int \<times> int \<Rightarrow> nat \<Rightarrow> nat result" where
  "flagStep d g row col off flagCount =
     (case off of (dr, dc) \<Rightarrow>
        (let nr = row + dr; nc = col + dc in
         if inGrid d nr nc then
           (case cellAt g nr nc of
              None \<Rightarrow> Throws TypeError
            | Some cell \<Rightarrow> Ok (if isFlagged cell then flagCount + 1 else flagCount))
         else Ok flagCount))"

text \<open>
  The second pair of loops of \<open>revealAdjacent\<close>. The test reads the grid \<open>g\<close> the handler
  closed over; every call of \<open>revealCell\<close> passes the status test of the same closure and
  hands its updater to \<open>setGrid\<close>, so the updaters run one after the other on the state.
\<close>

definition chordStep ::
  "Difficulty \<Rightarrow> Grid \<Rightarrow> bool \<Rightarrow> int \<Rightarrow> int \<Rightarrow> int \<times> int \<Rightarrow> GameState \<Rightarrow> GameState result" where
  "chordStep d g first row col off st =
     (case off of (dr, dc) \<Rightarrow>
        (let nr = row + dr; nc = col + dc in
         if inGrid d nr nc then
           (case cellAt g nr nc of
              None \<Rightarrow> Throws TypeError
            | Some adjacentCell \<Rightarrow>
                if \<not> isRevealed adjacentCell \<and> \<not> isFlagged adjacentCell
                then revealCellUpdater d first nr nc st
                else Ok st)
         else Ok st))"

definition revealAdjacent :: "Difficulty \<Rightarrow> GameState \<Rightarrow> int \<Rightarrow> int \<Rightarrow> GameState result" where
  "revealAdjacent d st row col =
     (if gameStatus st \<noteq> Playing then Ok st
      else
        (case cellAt (grid st) row col of
           None \<Rightarrow> Throws TypeError
         | Some cell \<Rightarrow>
             if \<not> isRevealed cell \<or> neighborMines cell = 0 then Ok st
             else
               andThen (forEach offsets (flagStep d (grid st) row col) 0) (\<lambda>flagCount.
                 if flagCount = neighborMines cell
                 then forEach offsets (chordStep d (grid st) (firstClick st) row col) st
                 else Ok st)))"

definition resetGame :: "Difficulty \<Rightarrow> GameState \<Rightarrow> GameState result" where
  "resetGame d st =
     andThen (initializeGrid d None None (randomSource st)) (\<lambda>(newGrid, rest).
       Ok (st\<lparr>grid := newGrid, gameStatus := Playing, timer := 0, isTimerRunning := False,
               firstClick := True, randomSource := rest\<rparr>))"

text \<open>The effect that React runs after a render in which the grid or the status changed.\<close>

definition checkWinCondition :: "GameState \<Rightarrow> GameState" where
  "checkWinCondition st =
     (if gameStatus st = Playing \<and> length (grid st) > 0 then
        (let allNonMinesRevealed =
               list_all (\<lambda>row. list_all (\<lambda>cell. isMine cell \<or> isRevealed cell) row) (grid st)
         in if allNonMinesRevealed then st\<lparr>gameStatus := Won, isTimerRunning := False\<rparr> else st)
      else st)"

text \<open>A command of the engine: the handler, then the effects of the render it causes.\<close>

definition reveal :: "Difficulty \<Rightarrow> GameState \<Rightarrow> int \<Rightarrow> int \<Rightarrow> GameState result" where
  "reveal d st row col = andThen (revealCell d st row col) (\<lambda>st'. Ok (checkWinCondition st'))"

definition chordReveal :: "Difficulty \<Rightarrow> GameState \<Rightarrow> int \<Rightarrow> int \<Rightarrow> GameState result" where
  "chordReveal d st row col =
     andThen (revealAdjacent d st row col) (\<lambda>st'. Ok (checkWinCondition st'))"

section \<open>Notions the properties are stated with\<close>

text \<open>A grid of \<open>rows\<close> rows with \<open>cols\<close> cells each, as \<open>initializeGrid\<close> builds it.\<close>

definition wellFormed :: "Difficulty \<Rightarrow> Grid \<Rightarrow> bool" where
  "wellFormed d g = (length g = rows d \<and> list_all (\<lambda>row. length row = cols d) g)"

text \<open>
  The up to eight neighbours of a cell: the positions one step away in a row, a column or
  a diagonal. A position off the grid holds no cell, so it never counts.
\<close>

definition adjacent8 :: "int \<times> int \<Rightarrow> int \<times> int \<Rightarrow> bool" where
  "adjacent8 p q = (\<bar>fst q - fst p\<bar> \<le> 1 \<and> \<bar>snd q - snd p\<bar> \<le> 1 \<and> q \<noteq> p)"

definition mineAt :: "Grid \<Rightarrow> int \<times> int \<Rightarrow> bool" where
  "mineAt g p = (case cellAt g (fst p) (snd p) of None \<Rightarrow> False | Some cell \<Rightarrow> isMine cell)"

definition mineNeighbors :: "Grid \<Rightarrow> int \<Rightarrow> int \<Rightarrow> nat" where
  "mineNeighbors g row col = card {q. adjacent8 (row, col) q \<and> mineAt g q}"

definition mineCount :: "Grid \<Rightarrow> nat" where
  "mineCount g = length (filter isMine (concat g))"

text \<open>Auxiliary notions of the proofs.\<close>

definition avoided :: "int option \<Rightarrow> int option \<Rightarrow> nat \<times> nat \<Rightarrow> bool" where
  "avoided avoidRow avoidCol p = (avoidRow = Some (int (fst p)) \<and> avoidCol = Some (int (snd p)))"

definition countAround :: "Grid \<Rightarrow> int \<Rightarrow> int \<Rightarrow> nat" where
  "countAround g row col = length (filter (\<lambda>off. mineAt g (row + fst off, col + snd off)) offsets)"

text \<open>The condition of the win check, on the cells of a grid.\<close>

definition allSafeRevealed :: "Grid \<Rightarrow> bool" where
  "allSafeRevealed g = (\<forall>r c cell. cellAt g r c = Some cell \<longrightarrow> \<not> isMine cell \<longrightarrow> isRevealed cell)"

text \<open>
  States the theorems are run on: a three by three board with one mine, as generated for a
  first click on its last cell, in a game past the first click; and, further down, the
  state in which the component starts a Beginner game.
\<close>

definition tiny :: Difficulty where
  "tiny = \<lparr>name = ''Tiny'', rows = 3, cols = 3, mines = 1\<rparr>"

definition safeCell :: "nat \<Rightarrow> CellState" where
  "safeCell n = \<lparr>isMine = False, isRevealed = False, isFlagged = False, neighborMines = n\<rparr>"

definition mineCell :: CellState where
  "mineCell = \<lparr>isMine = True, isRevealed = False, isFlagged = False, neighborMines = 0\<rparr>"

definition tinyGrid :: Grid where
  "tinyGrid = [[mineCell, safeCell 1, safeCell 0],
               [safeCell 1, safeCell 1, safeCell 0],
               [safeCell 0, safeCell 0, safeCell 0]]"

definition tinyGame :: GameState where
  "tinyGame = \<lparr>grid = tinyGrid, gameStatus = Playing, timer = 0, isTimerRunning = True,
                firstClick = False, randomSource = []\<rparr>"

text \<open>Thirteen draws of the random source, used to run the Beginner board.\<close>

definition demoDraws :: "(nat \<times> nat) list" where
  "demoDraws = [(4, 4), (0, 0), (0, 0), (1, 3), (2, 6), (3, 1), (4, 4), (5, 7), (6, 2), (7, 5),
                (8, 0), (8, 8), (0, 4)]"

definition demoBoot :: GameState where
  "demoBoot = \<lparr>grid = [], gameStatus = Playing, timer = 0, isTimerRunning = False,
                firstClick = True,
                randomSource = [(0, 0), (1, 1), (2, 2), (3, 3), (4, 4), (5, 5), (6, 6), (7, 7),
                                (8, 8), (0, 8)] @ demoDraws\<rparr>"

text \<open>
  The cells a flood fill may reveal (\<open>openCell\<close>), those it continues from (\<open>blankCell\<close>), the
  connected region of blank cells around a position and the region with its border.
  \<open>uncovers G N g\<close> says that \<open>g\<close> is \<open>G\<close> with the cells at the positions \<open>N\<close> revealed;
  \<open>reach\<close> and \<open>floodInv\<close> are the goal and the invariant of the queue loop.
\<close>

definition openCell :: "Grid \<Rightarrow> int \<times> int \<Rightarrow> bool" where
  "openCell g p = (case cellAt g (fst p) (snd p) of
                     None \<Rightarrow> False
                   | Some x \<Rightarrow> \<not> isRevealed x \<and> \<not> isFlagged x \<and> \<not> isMine x)"

definition blankCell :: "Grid \<Rightarrow> int \<times> int \<Rightarrow> bool" where
  "blankCell g p = (case cellAt g (fst p) (snd p) of
                      None \<Rightarrow> False
                    | Some x \<Rightarrow> \<not> isRevealed x \<and> \<not> isFlagged x \<and> \<not> isMine x \<and> neighborMines x = 0)"

definition blankRegion :: "Grid \<Rightarrow> int \<times> int \<Rightarrow> (int \<times> int) set" where
  "blankRegion g p = {z. (p, z) \<in> {(a, b). adjacent8 a b \<and> blankCell g b}\<^sup>*}"

definition floodArea :: "Grid \<Rightarrow> int \<times> int \<Rightarrow> (int \<times> int) set" where
  "floodArea g p = blankRegion g p
     \<union> {q. openCell g q \<and> \<not> blankCell g q \<and> (\<exists>z\<in>blankRegion g p. adjacent8 z q)}"

definition uncovers :: "Grid \<Rightarrow> (int \<times> int) set \<Rightarrow> Grid \<Rightarrow> bool" where
  "uncovers G N g = (\<forall>r c. cellAt g r c =
      map_option (\<lambda>x. if (r, c) \<in> N then x\<lparr>isRevealed := True\<rparr> else x) (cellAt G r c))"

definition reach :: "Grid \<Rightarrow> int \<times> int \<Rightarrow> (int \<times> int) set" where
  "reach G s = {q. openCell G q \<and> (\<exists>z\<in>blankRegion G s. q = z \<or> adjacent8 z q)}"

definition floodInv ::
  "Grid \<Rightarrow> int \<times> int \<Rightarrow> (int \<times> int) set \<Rightarrow> (int \<times> int) list \<Rightarrow> (int \<times> int) list \<Rightarrow> bool" where
  "floodInv G s N queue visited =
     (N \<subseteq> reach G s \<and> set visited \<subseteq> blankRegion G s \<and> set queue \<subseteq> blankRegion G s
      \<and> blankRegion G s \<inter> N \<subseteq> set visited \<union> set queue
      \<and> (\<forall>v\<in>set visited. \<forall>q. (q = v \<or> adjacent8 v q) \<and> openCell G q \<longrightarrow> q \<in> N)
      \<and> s \<in> N)"

text \<open>
  Notions of the chord: a flag at a position, the number of flagged neighbours, a cell
  that is neither revealed nor flagged, and two sample states with the centre revealed.
\<close>

definition flagAt :: "Grid \<Rightarrow> int \<times> int \<Rightarrow> bool" where
  "flagAt g p = (case cellAt g (fst p) (snd p) of None \<Rightarrow> False | Some cell \<Rightarrow> isFlagged cell)"

definition flaggedNeighbors :: "Grid \<Rightarrow> int \<Rightarrow> int \<Rightarrow> nat" where
  "flaggedNeighbors g row col = card {q. adjacent8 (row, col) q \<and> flagAt g q}"

definition coveredCell :: "Grid \<Rightarrow> int \<times> int \<Rightarrow> bool" where
  "coveredCell g p = (case cellAt g (fst p) (snd p) of
                        None \<Rightarrow> False
                      | Some cell \<Rightarrow> \<not> isRevealed cell \<and> \<not> isFlagged cell)"

definition tinyChord :: GameState where
  "tinyChord = tinyGame\<lparr>grid :=
      [[mineCell\<lparr>isFlagged := True\<rparr>, safeCell 1, safeCell 0],
       [safeCell 1, (safeCell 1)\<lparr>isRevealed := True\<rparr>, safeCell 0],
       [safeCell 0, safeCell 0, safeCell 0]]\<rparr>"

definition tinyBare :: GameState where
  "tinyBare = tinyGame\<lparr>grid :=
      [[mineCell, safeCell 1, safeCell 0],
       [safeCell 1, (safeCell 1)\<lparr>isRevealed := True\<rparr>, safeCell 0],
       [safeCell 0, safeCell 0, safeCell 0]]\<rparr>"

text \<open>
  What a chord reveals. \<open>revealArea G q\<close> is what one reveal at the position \<open>q\<close> uncovers on
  the grid \<open>G\<close>: every mine when \<open>q\<close> is a mine, the area of the flood fill when \<open>q\<close> is a
  blank cell, and \<open>q\<close> alone otherwise. \<open>chordArea\<close> collects it over the neighbours of the
  target that are neither revealed nor flagged. A set of positions is \<open>settled\<close> when no reveal
  inside it leads out of it, and \<open>chordResult\<close> is the state of the handler's loop after the
  neighbours \<open>P\<close> have been dealt with. \<open>tinyWrong\<close> is a sample state with the flag on a safe
  cell.
\<close>

definition revealArea :: "Grid \<Rightarrow> int \<times> int \<Rightarrow> (int \<times> int) set" where
  "revealArea G q = (if mineAt G q then insert q {p. mineAt G p}
                     else if blankCell G q then floodArea G q else {q})"

definition chordArea :: "Grid \<Rightarrow> int \<Rightarrow> int \<Rightarrow> (int \<times> int) set" where
  "chordArea G row col = \<Union> (revealArea G ` {q. adjacent8 (row, col) q \<and> coveredCell G q})"

definition settled :: "Grid \<Rightarrow> (int \<times> int) set \<Rightarrow> bool" where
  "settled G N =
     ((\<forall>z\<in>N. blankCell G z \<longrightarrow> (\<forall>q. adjacent8 z q \<and> openCell G q \<longrightarrow> q \<in> N))
      \<and> ((\<exists>p\<in>N. mineAt G p) \<longrightarrow> {p. mineAt G p} \<subseteq> N))"

definition chordResult :: "GameState \<Rightarrow> Grid \<Rightarrow> (int \<times> int) set \<Rightarrow> Grid \<Rightarrow> GameState" where
  "chordResult st G P g =
     st\<lparr>grid := g,
        gameStatus := (if \<exists>q\<in>P. mineAt G q then Lost else gameStatus st),
        isTimerRunning := (if \<exists>q\<in>P. mineAt G q then False else isTimerRunning st)\<rparr>"

definition tinyWrong :: GameState where
  "tinyWrong = tinyGame\<lparr>grid :=
      [[mineCell, (safeCell 1)\<lparr>isFlagged := True\<rparr>, safeCell 0],
       [safeCell 1, (safeCell 1)\<lparr>isRevealed := True\<rparr>, safeCell 0],
       [safeCell 0, safeCell 0, safeCell 0]]\<rparr>"

text \<open>
  The states a game goes through: the state after \<open>resetGame\<close> (on mount, on the reset button
  and on a change of difficulty), and the state after each command, every one followed by
  the win check of the render it causes. \<open>gameInv\<close> is what holds in all of them.
\<close>

definition cellsInv :: "Difficulty \<Rightarrow> GameState \<Rightarrow> bool" where
  "cellsInv d st =
     (wellFormed d (grid st)
      \<and> (firstClick st \<longrightarrow> (\<forall>r c x. cellAt (grid st) r c = Some x \<longrightarrow> \<not> isRevealed x))
      \<and> (gameStatus st = Playing \<longrightarrow>
           (\<forall>r c x. cellAt (grid st) r c = Some x \<longrightarrow> isRevealed x \<longrightarrow> \<not> isFlagged x)))"

definition gameInv :: "Difficulty \<Rightarrow> GameState \<Rightarrow> bool" where
  "gameInv d st = (cellsInv d st \<and> checkWinCondition st = st)"

inductive reachable :: "Difficulty \<Rightarrow> GameState \<Rightarrow> bool" for d :: Difficulty where
  reset: "resetGame d st0 = Ok st \<Longrightarrow> reachable d (checkWinCondition st)"
| revealed: "reachable d st \<Longrightarrow> reveal d st row col = Ok st' \<Longrightarrow> reachable d st'"
| flagged: "reachable d st \<Longrightarrow> toggleFlag st row col = Ok st' \<Longrightarrow> reachable d (checkWinCondition st')"
| chorded: "reachable d st \<Longrightarrow> chordReveal d st row col = Ok st' \<Longrightarrow> reachable d st'"

section \<open>Lemmas on grids\<close>

lemma andThen_simps [simp]:
  "andThen (Ok x) f = f x" "andThen (Throws e) f = Throws e" "andThen Pending f = Pending"
  by (simp_all add: andThen_def)

lemma wellFormed_cellAt:
  "wellFormed d g \<Longrightarrow> cellAt g r c \<noteq> None \<longleftrightarrow> inGrid d r c"
  by (auto simp: wellFormed_def cellAt_def inGrid_def list_all_length)

lemma wellFormed_emptyGrid: "wellFormed d (emptyGrid d)"
  by (simp add: wellFormed_def emptyGrid_def list_all_length)

lemma cellAt_emptyGrid: "cellAt (emptyGrid d) r c = (if inGrid d r c then Some emptyCell else None)"
  by (auto simp: cellAt_def emptyGrid_def inGrid_def)

lemma length_updCell [simp]: "length (updCell g r c f) = length g"
  by (simp add: updCell_def)

lemma nth_updCell:
  "i < length g \<Longrightarrow>
     updCell g r c f ! i = (if i = nat r then (g ! i)[nat c := f (g ! i ! nat c)] else g ! i)"
  by (simp add: updCell_def)

lemma wellFormed_updCell: "wellFormed d g \<Longrightarrow> wellFormed d (updCell g r c f)"
  by (simp add: wellFormed_def list_all_length nth_updCell)

lemma cellAt_updCell:
  assumes "cellAt g r c = Some cell"
  shows "cellAt (updCell g r c f) r' c' = (if r' = r \<and> c' = c then Some (f cell) else cellAt g r' c')"
proof -
  from assms have r: "0 \<le> r" "nat r < length g" and c: "0 \<le> c" "nat c < length (g ! nat r)"
    and cell: "cell = g ! nat r ! nat c"
    by (simp_all add: cellAt_Some_iff)
  show ?thesis
  proof (cases "0 \<le> r' \<and> nat r' < length g")
    case False
    with r show ?thesis by (auto simp: cellAt_def)
  next
    case True
    then have row: "updCell g r c f ! nat r'
        = (if nat r' = nat r then (g ! nat r')[nat c := f (g ! nat r' ! nat c)] else g ! nat r')"
      by (simp add: nth_updCell)
    have eqr: "nat r' = nat r \<longleftrightarrow> r' = r" using True r by auto
    show ?thesis
    proof (cases "r' = r")
      case False
      with True row eqr show ?thesis by (simp add: cellAt_def)
    next
      case same: True
      have eqc: "0 \<le> c' \<Longrightarrow> nat c' = nat c \<longleftrightarrow> c' = c" using c by auto
      from same True row c cell eqc show ?thesis
        by (auto simp: cellAt_def nth_list_update)
    qed
  qed
qed


subsection \<open>placeMines\<close>

lemma set_setAdd [simp]: "set (setAdd k ks) = insert k (set ks)"
  by (auto simp: setAdd_def)

lemma distinct_setAdd [simp]: "distinct (setAdd k ks) = distinct ks"
  by (auto simp: setAdd_def)

lemma length_setAdd: "length (setAdd k ks) \<le> Suc (length ks)"
  by (simp add: setAdd_def)

lemma placeMines_Ok:
  "placeMines d avoidRow avoidCol mp draws = Ok (mp', rest) \<Longrightarrow>
   distinct mp \<Longrightarrow> length mp \<le> mines d \<Longrightarrow> \<forall>p\<in>set mp. \<not> avoided avoidRow avoidCol p \<Longrightarrow>
     distinct mp' \<and> length mp' = mines d \<and> (\<forall>p\<in>set mp'. \<not> avoided avoidRow avoidCol p)
       \<and> set mp' \<subseteq> set mp \<union> set draws"
proof (induction draws arbitrary: mp)
  case Nil
  then show ?case by (auto split: if_splits)
next
  case (Cons p draws)
  obtain row col where p: "p = (row, col)" by (cases p)
  show ?case
  proof (cases "length mp < mines d")
    case False
    with Cons.prems p show ?thesis by auto
  next
    case more: True
    show ?thesis
    proof (cases "avoided avoidRow avoidCol (row, col)")
      case True
      with Cons.prems more p
      have "placeMines d avoidRow avoidCol mp draws = Ok (mp', rest)"
        by (auto simp: avoided_def)
      from Cons.IH[OF this Cons.prems(2,3,4)] show ?thesis by auto
    next
      case False
      with Cons.prems more p
      have run: "placeMines d avoidRow avoidCol (setAdd (row, col) mp) draws = Ok (mp', rest)"
        by (auto simp: avoided_def)
      have len: "length (setAdd (row, col) mp) \<le> mines d"
        using more length_setAdd[of "(row, col)" mp] by linarith
      have dist: "distinct (setAdd (row, col) mp)" using Cons.prems(2) by simp
      have clean: "\<forall>q\<in>set (setAdd (row, col) mp). \<not> avoided avoidRow avoidCol q"
        using Cons.prems(4) False by simp
      from Cons.IH[OF run dist len clean]
      have "distinct mp'" "length mp' = mines d" "\<forall>p\<in>set mp'. \<not> avoided avoidRow avoidCol p"
        and sub: "set mp' \<subseteq> set (setAdd (row, col) mp) \<union> set draws"
        by blast+
      moreover from sub p have "set mp' \<subseteq> set mp \<union> set (p # draws)" by auto
      ultimately show ?thesis by blast
    qed
  qed
qed

lemma placeMines_not_Throws: "placeMines d avoidRow avoidCol mp draws \<noteq> Throws e"
  by (induction d avoidRow avoidCol mp draws rule: placeMines.induct) auto

subsection \<open>Setting the mines\<close>

lemma setMine_Ok:
  assumes "setMine (row, col) g = Ok g'"
  obtains cell where "cellAt g (int row) (int col) = Some cell"
    and "g' = updCell g (int row) (int col) (\<lambda>c. c\<lparr>isMine := True\<rparr>)"
  using assms by (auto simp: setMine_def split: option.splits)

lemma setMines_result:
  "forEach ps setMine g = Ok g' \<Longrightarrow> distinct ps \<Longrightarrow>
   \<forall>p\<in>set ps. \<not> mineAt g (int (fst p), int (snd p)) \<Longrightarrow> wellFormed d g \<Longrightarrow>
     wellFormed d g' \<and> mineCount g' = mineCount g + length ps
     \<and> (\<forall>r c. cellAt g' r c =
           map_option (\<lambda>cell. if (r, c) \<in> (\<lambda>p. (int (fst p), int (snd p))) ` set ps
                               then cell\<lparr>isMine := True\<rparr> else cell) (cellAt g r c))"
proof (induction ps arbitrary: g)
  case Nil
  then show ?case by (simp add: option.map_ident)
next
  case (Cons p ps)
  obtain row col where p: "p = (row, col)" by (cases p)
  from Cons.prems(1) p obtain g1 where
    step: "setMine (row, col) g = Ok g1" and rest: "forEach ps setMine g1 = Ok g'"
    by (auto simp: andThen_Ok_iff)
  from step obtain cell where cell: "cellAt g (int row) (int col) = Some cell"
    and g1: "g1 = updCell g (int row) (int col) (\<lambda>c. c\<lparr>isMine := True\<rparr>)"
    by (rule setMine_Ok)
  have at_p: "cellAt g1 (int row) (int col) = Some (cell\<lparr>isMine := True\<rparr>)"
    unfolding g1 by (simp add: cellAt_updCell[OF cell])
  have off_p: "cellAt g1 r c = cellAt g r c" if "\<not> (r = int row \<and> c = int col)" for r c
    unfolding g1 using that by (auto simp: cellAt_updCell[OF cell])
  from Cons.prems(3) p cell have notmine: "\<not> isMine cell" by (simp add: mineAt_def)
  from updCell_count[OF cell, of isMine "\<lambda>c. c\<lparr>isMine := True\<rparr>"] notmine
  have count1: "mineCount g1 = mineCount g + 1" by (simp add: mineCount_def g1)
  have wf1: "wellFormed d g1" unfolding g1 by (rule wellFormed_updCell[OF Cons.prems(4)])
  have fresh: "\<forall>q\<in>set ps. \<not> mineAt g1 (int (fst q), int (snd q))"
  proof
    fix q assume q: "q \<in> set ps"
    with Cons.prems(2) p have "q \<noteq> (row, col)" by auto
    then have "\<not> (int (fst q) = int row \<and> int (snd q) = int col)"
      by (metis of_nat_eq_iff prod.collapse)
    from off_p[OF this] have "mineAt g1 (int (fst q), int (snd q)) = mineAt g (int (fst q), int (snd q))"
      by (simp add: mineAt_def)
    with Cons.prems(3) q show "\<not> mineAt g1 (int (fst q), int (snd q))" by simp
  qed
  from Cons.prems(2) have dps: "distinct ps" by simp
  from Cons.IH[OF rest dps fresh wf1]
  have wf': "wellFormed d g'" and count': "mineCount g' = mineCount g1 + length ps"
    and view': "\<And>r c. cellAt g' r c =
           map_option (\<lambda>cell. if (r, c) \<in> (\<lambda>p. (int (fst p), int (snd p))) ` set ps
                               then cell\<lparr>isMine := True\<rparr> else cell) (cellAt g1 r c)"
    by blast+
  have view: "cellAt g' r c =
           map_option (\<lambda>cell. if (r, c) \<in> (\<lambda>p. (int (fst p), int (snd p))) ` set (p # ps)
                               then cell\<lparr>isMine := True\<rparr> else cell) (cellAt g r c)" for r c
  proof (cases "r = int row \<and> c = int col")
    case True
    then have "cellAt g1 r c = Some (cell\<lparr>isMine := True\<rparr>)" and "cellAt g r c = Some cell"
      using at_p cell by simp_all
    moreover have "(r, c) \<in> (\<lambda>p. (int (fst p), int (snd p))) ` set (p # ps)"
      using True p by simp
    ultimately show ?thesis using view'[of r c] by simp
  next
    case False
    from off_p[OF this] have same: "cellAt g1 r c = cellAt g r c" .
    from False have "(r, c) \<noteq> (int (fst p), int (snd p))" using p by auto
    then have "(r, c) \<in> (\<lambda>p. (int (fst p), int (snd p))) ` set (p # ps)
        \<longleftrightarrow> (r, c) \<in> (\<lambda>p. (int (fst p), int (snd p))) ` set ps"
      by auto
    with same view'[of r c] show ?thesis by simp
  qed
  have "mineCount g' = mineCount g + length (p # ps)" using count' count1 by simp
  with wf' view show ?case by blast
qed


subsection \<open>Counting the neighbouring mines\<close>

lemma countStep_wellFormed:
  assumes "wellFormed d g"
  shows "countStep d g row col off k
           = Ok (if mineAt g (row + fst off, col + snd off) then k + 1 else k)"
proof (cases "inGrid d (row + fst off) (col + snd off)")
  case True
  with wellFormed_cellAt[OF assms, of "row + fst off" "col + snd off"]
  obtain cell where "cellAt g (row + fst off) (col + snd off) = Some cell" by auto
  with True show ?thesis
    by (simp add: countStep_def mineAt_def Let_def case_prod_beta)
next
  case False
  with wellFormed_cellAt[OF assms, of "row + fst off" "col + snd off"]
  have "cellAt g (row + fst off) (col + snd off) = None" by auto
  with False show ?thesis
    by (simp add: countStep_def mineAt_def Let_def case_prod_beta)
qed

lemma count_loop:
  assumes "wellFormed d g"
  shows "forEach offs (countStep d g row col) k
           = Ok (k + length (filter (\<lambda>off. mineAt g (row + fst off, col + snd off)) offs))"
  by (induction offs arbitrary: k) (simp_all add: countStep_wellFormed[OF assms])

lemma calcCell_wellFormed:
  assumes "wellFormed d g" and "cellAt g row col = Some cell"
  shows "calcCell d (row, col) g
           = Ok (if isMine cell then g
                 else updCell g row col (\<lambda>c. c\<lparr>neighborMines := countAround g row col\<rparr>))"
  using assms(2) by (simp add: calcCell_def count_loop[OF assms(1)] countAround_def)

lemma adjacent8_offsets:
  "adjacent8 (row, col) q \<longleftrightarrow>
     q \<noteq> (row, col) \<and> q \<in> (\<lambda>off. (row + fst off, col + snd off)) ` set offsets"
proof -
  obtain nr nc where q: "q = (nr, nc)" by (cases q)
  have "\<bar>nr - row\<bar> \<le> 1 \<longleftrightarrow> nr = row + (-1) \<or> nr = row + 0 \<or> nr = row + 1" by arith
  moreover have "\<bar>nc - col\<bar> \<le> 1 \<longleftrightarrow> nc = col + (-1) \<or> nc = col + 0 \<or> nc = col + 1" by arith
  ultimately show ?thesis
    unfolding q adjacent8_def offsets_def by (simp add: image_iff) blast
qed

lemma distinct_offsets: "distinct offsets"
  by (simp add: offsets_def)

lemma countAround_mineNeighbors:
  assumes "\<not> mineAt g (row, col)"
  shows "countAround g row col = mineNeighbors g row col"
proof -
  let ?shift = "\<lambda>off. (row + fst off, col + snd off)"
  let ?hits = "filter (\<lambda>off. mineAt g (?shift off)) offsets"
  have inj: "inj_on ?shift A" for A
    by (rule inj_onI) (auto simp: prod_eq_iff)
  have "{q. adjacent8 (row, col) q \<and> mineAt g q} = ?shift ` set ?hits"
    using assms by (auto simp: adjacent8_offsets)
  then have "mineNeighbors g row col = card (?shift ` set ?hits)"
    by (simp add: mineNeighbors_def)
  also have "\<dots> = card (set ?hits)" by (rule card_image[OF inj])
  also have "\<dots> = length ?hits"
    by (rule distinct_card) (simp add: distinct_offsets)
  finally show ?thesis by (simp add: countAround_def)
qed

lemma set_positions: "set (positions d) = {p. inGrid d (fst p) (snd p)}"
proof (rule set_eqI)
  fix p :: "int \<times> int"
  obtain r c where p: "p = (r, c)" by (cases p)
  show "p \<in> set (positions d) \<longleftrightarrow> p \<in> {p. inGrid d (fst p) (snd p)}"
  proof
    assume "p \<in> set (positions d)"
    then show "p \<in> {p. inGrid d (fst p) (snd p)}"
      by (auto simp: positions_def inGrid_def)
  next
    assume "p \<in> {p. inGrid d (fst p) (snd p)}"
    with p have r: "0 \<le> r" "nat r < rows d" and c: "0 \<le> c" "nat c < cols d"
      by (auto simp: inGrid_def)
    have "(int (nat r), int (nat c)) \<in> set (positions d)"
      unfolding positions_def using r(2) c(2) by (auto intro!: bexI[of _ "nat r"] image_eqI[of _ _ "nat c"])
    with r(1) c(1) p show "p \<in> set (positions d)" by simp
  qed
qed


lemma mineAt_cong:
  "(\<And>r c. map_option isMine (cellAt g' r c) = map_option isMine (cellAt g r c)) \<Longrightarrow>
     mineAt g' = mineAt g"
proof (rule ext)
  fix p assume same: "\<And>r c. map_option isMine (cellAt g' r c) = map_option isMine (cellAt g r c)"
  from same[of "fst p" "snd p"] show "mineAt g' p = mineAt g p"
    by (cases "cellAt g' (fst p) (snd p)"; cases "cellAt g (fst p) (snd p)") (simp_all add: mineAt_def)
qed

lemma calc_loop:
  assumes "wellFormed d g" and "\<forall>p\<in>set ps. inGrid d (fst p) (snd p)"
  shows "\<exists>g'. forEach ps (calcCell d) g = Ok g' \<and> wellFormed d g' \<and> mineCount g' = mineCount g
           \<and> (\<forall>r c. cellAt g' r c =
                 map_option (\<lambda>cell. if \<not> isMine cell \<and> (r, c) \<in> set ps
                                     then cell\<lparr>neighborMines := countAround g r c\<rparr> else cell)
                   (cellAt g r c))"
  using assms
proof (induction ps arbitrary: g)
  case Nil
  then show ?case by (simp add: option.map_ident)
next
  case (Cons p ps)
  obtain row col where p: "p = (row, col)" by (cases p)
  from Cons.prems p have "inGrid d row col" by simp
  with wellFormed_cellAt[OF Cons.prems(1), of row col]
  obtain cell where cell: "cellAt g row col = Some cell" by auto
  define g1 where "g1 = (if isMine cell then g
                          else updCell g row col (\<lambda>c. c\<lparr>neighborMines := countAround g row col\<rparr>))"
  have step: "calcCell d (row, col) g = Ok g1"
    unfolding g1_def by (rule calcCell_wellFormed[OF Cons.prems(1) cell])
  have wf1: "wellFormed d g1"
    unfolding g1_def using Cons.prems(1) by (simp add: wellFormed_updCell)
  have view1: "cellAt g1 r c =
      map_option (\<lambda>x. if \<not> isMine x \<and> (r, c) = (row, col)
                        then x\<lparr>neighborMines := countAround g r c\<rparr> else x) (cellAt g r c)" for r c
  proof (cases "isMine cell")
    case True
    then have "g1 = g" by (simp add: g1_def)
    then show ?thesis using True cell by (cases "cellAt g r c") auto
  next
    case False
    then have "g1 = updCell g row col (\<lambda>c. c\<lparr>neighborMines := countAround g row col\<rparr>)"
      by (simp add: g1_def)
    then show ?thesis using False cell
      by (cases "cellAt g r c") (auto simp: cellAt_updCell[OF cell])
  qed
  have count1: "mineCount g1 = mineCount g"
  proof (cases "isMine cell")
    case True
    then show ?thesis by (simp add: g1_def)
  next
    case False
    from updCell_count[OF cell, of isMine "\<lambda>c. c\<lparr>neighborMines := countAround g row col\<rparr>"] False
    show ?thesis by (simp add: g1_def mineCount_def)
  qed
  have "map_option isMine (cellAt g1 r c) = map_option isMine (cellAt g r c)" for r c
    unfolding view1 by (cases "cellAt g r c") simp_all
  then have "mineAt g1 = mineAt g" by (rule mineAt_cong)
  then have around: "countAround g1 = countAround g"
    by (intro ext) (simp add: countAround_def)
  from Cons.prems(2) have "\<forall>p\<in>set ps. inGrid d (fst p) (snd p)" by simp
  from Cons.IH[OF wf1 this] obtain g' where
    run: "forEach ps (calcCell d) g1 = Ok g'" and wf': "wellFormed d g'"
    and count': "mineCount g' = mineCount g1"
    and view': "\<And>r c. cellAt g' r c =
                 map_option (\<lambda>cell. if \<not> isMine cell \<and> (r, c) \<in> set ps
                                     then cell\<lparr>neighborMines := countAround g1 r c\<rparr> else cell)
                   (cellAt g1 r c)"
    by blast
  have "cellAt g' r c =
          map_option (\<lambda>cell. if \<not> isMine cell \<and> (r, c) \<in> set (p # ps)
                              then cell\<lparr>neighborMines := countAround g r c\<rparr> else cell)
            (cellAt g r c)" for r c
    unfolding view'[of r c] view1[of r c] around p
    by (cases "cellAt g r c") auto
  moreover from step run p have "forEach (p # ps) (calcCell d) g = Ok g'" by simp
  ultimately show ?case using wf' count' count1 by auto
qed

lemma mineCount_emptyGrid: "mineCount (emptyGrid d) = 0"
  by (simp add: mineCount_def emptyGrid_def emptyCell_def filter_concat)

lemma initializeGrid_Ok:
  assumes "initializeGrid d avoidRow avoidCol draws = Ok (g, rest)"
  shows "wellFormed d g" and "mineCount g = mines d"
    and "cellAt g r c = Some cell \<Longrightarrow>
           \<not> isRevealed cell \<and> \<not> isFlagged cell
           \<and> (isMine cell \<longrightarrow> \<not> (avoidRow = Some r \<and> avoidCol = Some c))
           \<and> (\<not> isMine cell \<longrightarrow> neighborMines cell = mineNeighbors g r c)"
proof -
  from assms obtain mp mined where
    place: "placeMines d avoidRow avoidCol [] draws = Ok (mp, rest)"
    and setm: "forEach mp setMine (emptyGrid d) = Ok mined"
    and calc: "forEach (positions d) (calcCell d) mined = Ok g"
    by (auto simp: initializeGrid_def andThen_Ok_iff)
  from placeMines_Ok[OF place] have dist: "distinct mp" and len: "length mp = mines d"
    and clean: "\<forall>p\<in>set mp. \<not> avoided avoidRow avoidCol p"
    by simp_all
  have "\<forall>p\<in>set mp. \<not> mineAt (emptyGrid d) (int (fst p), int (snd p))"
    by (simp add: mineAt_def cellAt_emptyGrid emptyCell_def)
  from setMines_result[OF setm dist this wellFormed_emptyGrid]
  have wfm: "wellFormed d mined" and countm: "mineCount mined = mines d"
    and viewm: "\<And>r c. cellAt mined r c =
           map_option (\<lambda>cell. if (r, c) \<in> (\<lambda>p. (int (fst p), int (snd p))) ` set mp
                               then cell\<lparr>isMine := True\<rparr> else cell) (cellAt (emptyGrid d) r c)"
    by (simp_all add: mineCount_emptyGrid len)
  have "\<forall>p\<in>set (positions d). inGrid d (fst p) (snd p)" by (simp add: set_positions)
  from calc_loop[OF wfm this] calc
  have wfg: "wellFormed d g" and countg: "mineCount g = mineCount mined"
    and viewg: "\<And>r c. cellAt g r c =
                 map_option (\<lambda>cell. if \<not> isMine cell \<and> (r, c) \<in> set (positions d)
                                     then cell\<lparr>neighborMines := countAround mined r c\<rparr> else cell)
                   (cellAt mined r c)"
    by auto
  show "wellFormed d g" by (rule wfg)
  show "mineCount g = mines d" using countg countm by simp
  have "map_option isMine (cellAt g r c) = map_option isMine (cellAt mined r c)" for r c
    unfolding viewg by (cases "cellAt mined r c") simp_all
  then have "mineAt g = mineAt mined" by (rule mineAt_cong)
  then have around: "countAround mined = countAround g"
    by (intro ext) (simp add: countAround_def)
  assume cell: "cellAt g r c = Some cell"
  with wellFormed_cellAt[OF wfg, of r c] have inb: "inGrid d r c" by simp
  then have pos: "(r, c) \<in> set (positions d)" by (simp add: set_positions)
  define m where "m = ((r, c) \<in> (\<lambda>p. (int (fst p), int (snd p))) ` set mp)"
  from viewm[of r c] inb have minedcell: "cellAt mined r c = Some (if m then emptyCell\<lparr>isMine := True\<rparr> else emptyCell)"
    by (simp add: cellAt_emptyGrid m_def)
  with viewg[of r c] pos cell around
  have shape: "cell = (if m then emptyCell\<lparr>isMine := True\<rparr>
                       else emptyCell\<lparr>neighborMines := countAround g r c\<rparr>)"
    by (auto simp: emptyCell_def split: if_splits)
  have "\<not> (avoidRow = Some r \<and> avoidCol = Some c)" if m
  proof -
    from that obtain p where "p \<in> set mp" "r = int (fst p)" "c = int (snd p)"
      by (auto simp: m_def)
    with clean show ?thesis by (auto simp: avoided_def)
  qed
  moreover have "neighborMines cell = mineNeighbors g r c" if "\<not> isMine cell"
  proof -
    from that cell have "\<not> mineAt g (r, c)" by (simp add: mineAt_def)
    from countAround_mineNeighbors[OF this] shape that show ?thesis
      by (simp add: emptyCell_def split: if_splits)
  qed
  ultimately show "\<not> isRevealed cell \<and> \<not> isFlagged cell
           \<and> (isMine cell \<longrightarrow> \<not> (avoidRow = Some r \<and> avoidCol = Some c))
           \<and> (\<not> isMine cell \<longrightarrow> neighborMines cell = mineNeighbors g r c)"
    using shape by (auto simp: emptyCell_def split: if_splits)
qed


lemma placeMines_result_cases:
  "placeMines d avoidRow avoidCol mp draws = Pending
     \<or> (\<exists>mp' rest. placeMines d avoidRow avoidCol mp draws = Ok (mp', rest))"
  by (cases "placeMines d avoidRow avoidCol mp draws") (auto simp: placeMines_not_Throws)

subsection \<open>Cells, the win check and the sample states\<close>

lemma updCell_same:
  assumes "cellAt g r c = Some cell" and "f cell = cell"
  shows "updCell g r c f = g"
  using assms by (simp add: updCell_def cellAt_Some_iff)

lemma updCell_updCell:
  assumes "cellAt g r c = Some cell"
  shows "updCell (updCell g r c f) r c h = updCell g r c (\<lambda>x. h (f x))"
proof -
  from assms have "nat r < length g" "nat c < length (g ! nat r)"
    by (simp_all add: cellAt_Some_iff)
  then show ?thesis by (simp add: updCell_def)
qed

lemma cellAt_map: "cellAt (map (map f) g) r c = map_option f (cellAt g r c)"
  by (simp add: cellAt_def)

lemma all_cells_iff:
  "list_all (list_all P) g \<longleftrightarrow> (\<forall>r c cell. cellAt g r c = Some cell \<longrightarrow> P cell)"
proof
  assume "list_all (list_all P) g"
  then show "\<forall>r c cell. cellAt g r c = Some cell \<longrightarrow> P cell"
    by (auto simp: cellAt_Some_iff list_all_length)
next
  assume all: "\<forall>r c cell. cellAt g r c = Some cell \<longrightarrow> P cell"
  have "P (g ! i ! j)" if "i < length g" "j < length (g ! i)" for i j
  proof -
    from that have "cellAt g (int i) (int j) = Some (g ! i ! j)" by (simp add: cellAt_def)
    with all show ?thesis by blast
  qed
  then show "list_all (list_all P) g" by (simp add: list_all_length)
qed

lemma allSafeRevealed_cong:
  assumes "\<And>r c. map_option (\<lambda>x. (isMine x, isRevealed x)) (cellAt g' r c)
                     = map_option (\<lambda>x. (isMine x, isRevealed x)) (cellAt g r c)"
  shows "allSafeRevealed g' = allSafeRevealed g"
proof -
  have "(\<forall>cell. cellAt g' r c = Some cell \<longrightarrow> \<not> isMine cell \<longrightarrow> isRevealed cell)
      = (\<forall>cell. cellAt g r c = Some cell \<longrightarrow> \<not> isMine cell \<longrightarrow> isRevealed cell)" for r c
    using assms[of r c] by (cases "cellAt g r c"; cases "cellAt g' r c") auto
  then show ?thesis unfolding allSafeRevealed_def by simp
qed

lemma all_cells_safe: "list_all (list_all (\<lambda>cell. isMine cell \<or> isRevealed cell)) g = allSafeRevealed g"
  unfolding all_cells_iff allSafeRevealed_def by blast

lemma checkWinCondition_status:
  "gameStatus (checkWinCondition st) =
     (if gameStatus st = Playing \<and> grid st \<noteq> [] \<and> allSafeRevealed (grid st)
      then Won else gameStatus st)"
  by (simp add: checkWinCondition_def all_cells_safe Let_def)

lemma checkWinCondition_grid [simp]: "grid (checkWinCondition st) = grid st"
  by (simp add: checkWinCondition_def Let_def)

lemma checkWinCondition_fixed:
  "checkWinCondition st = st \<longleftrightarrow>
     \<not> (gameStatus st = Playing \<and> grid st \<noteq> [] \<and> allSafeRevealed (grid st))"
proof -
  have "st\<lparr>gameStatus := Won, isTimerRunning := False\<rparr> \<noteq> st" if "gameStatus st = Playing"
  proof
    assume "st\<lparr>gameStatus := Won, isTimerRunning := False\<rparr> = st"
    then have "gameStatus (st\<lparr>gameStatus := Won, isTimerRunning := False\<rparr>) = gameStatus st" by simp
    with that show False by simp
  qed
  then show ?thesis
    by (auto simp: checkWinCondition_def all_cells_safe Let_def)
qed

lemma tinyGrid_generated: "initializeGrid tiny (Some 2) (Some 2) [(0, 0)] = Ok (tinyGrid, [])"
  by code_simp

lemma wellFormed_tinyGrid: "wellFormed tiny tinyGrid"
  by code_simp

lemma cellAt_revealAllMines:
  "cellAt (revealAllMines g) r c
     = map_option (\<lambda>cell. if isMine cell then cell\<lparr>isRevealed := True\<rparr> else cell) (cellAt g r c)"
  by (simp add: revealAllMines_def cellAt_map)

subsection \<open>The flood fill\<close>

lemma blankCell_open: "blankCell g p \<Longrightarrow> openCell g p"
  by (auto simp: blankCell_def openCell_def split: option.splits)

lemma blankRegion_start: "s \<in> blankRegion G s"
  by (simp add: blankRegion_def)

lemma blankRegion_step:
  "z \<in> blankRegion G s \<Longrightarrow> adjacent8 z z' \<Longrightarrow> blankCell G z' \<Longrightarrow> z' \<in> blankRegion G s"
  unfolding blankRegion_def by (auto intro: rtrancl_into_rtrancl)

lemma blankRegion_blank:
  assumes "blankCell G s" and "z \<in> blankRegion G s"
  shows "blankCell G z"
proof -
  from assms(2) have "(s, z) \<in> {(a, b). adjacent8 a b \<and> blankCell G b}\<^sup>*"
    by (simp add: blankRegion_def)
  then show ?thesis using assms(1) by (induction rule: rtrancl_induct) auto
qed

lemma reach_floodArea:
  assumes "blankCell G s"
  shows "reach G s = floodArea G s"
proof (rule set_eqI)
  fix q
  show "q \<in> reach G s \<longleftrightarrow> q \<in> floodArea G s"
  proof
    assume "q \<in> reach G s"
    then obtain z where op: "openCell G q" and z: "z \<in> blankRegion G s" and nb: "q = z \<or> adjacent8 z q"
      by (auto simp: reach_def)
    show "q \<in> floodArea G s"
    proof (cases "q = z")
      case True
      with z show ?thesis by (simp add: floodArea_def)
    next
      case False
      with nb have adj: "adjacent8 z q" by simp
      show ?thesis
      proof (cases "blankCell G q")
        case True
        from blankRegion_step[OF z adj True] show ?thesis by (simp add: floodArea_def)
      next
        case False
        with op z adj show ?thesis by (auto simp: floodArea_def)
      qed
    qed
  next
    assume "q \<in> floodArea G s"
    then consider "q \<in> blankRegion G s"
      | z where "openCell G q" "z \<in> blankRegion G s" "adjacent8 z q"
      by (auto simp: floodArea_def)
    then show "q \<in> reach G s"
    proof cases
      case 1
      from blankCell_open[OF blankRegion_blank[OF assms 1]] 1 show ?thesis
        by (auto simp: reach_def)
    next
      case 2
      then show ?thesis by (auto simp: reach_def)
    qed
  qed
qed

lemma floodInv_done:
  assumes inv: "floodInv G s N [] visited"
  shows "N = reach G s"
proof -
  from inv have sub: "N \<subseteq> reach G s" and vis: "blankRegion G s \<inter> N \<subseteq> set visited"
    and closed: "\<And>v q. v \<in> set visited \<Longrightarrow> q = v \<or> adjacent8 v q \<Longrightarrow> openCell G q \<Longrightarrow> q \<in> N"
    and start: "s \<in> N"
    by (auto simp: floodInv_def)
  have region: "z \<in> set visited" if "z \<in> blankRegion G s" for z
  proof -
    from that have "(s, z) \<in> {(a, b). adjacent8 a b \<and> blankCell G b}\<^sup>*"
      by (simp add: blankRegion_def)
    then show ?thesis
    proof (induction rule: rtrancl_induct)
      case base
      from start blankRegion_start vis show ?case by blast
    next
      case (step y z)
      then have adj: "adjacent8 y z" and blank: "blankCell G z" by auto
      from step.hyps(1) have yreg: "y \<in> blankRegion G s" by (simp add: blankRegion_def)
      from closed[OF step.IH _ blankCell_open[OF blank]] adj have "z \<in> N" by blast
      moreover from blankRegion_step[OF yreg adj blank] have "z \<in> blankRegion G s" .
      ultimately show ?case using vis by blast
    qed
  qed
  have "reach G s \<subseteq> N"
  proof
    fix q assume "q \<in> reach G s"
    then obtain z where "openCell G q" "z \<in> blankRegion G s" "q = z \<or> adjacent8 z q"
      by (auto simp: reach_def)
    with closed[OF region] show "q \<in> N" by blast
  qed
  with sub show ?thesis by blast
qed

lemma uncovers_updCell:
  assumes "uncovers G N g" and "cellAt g r c = Some y"
  shows "uncovers G (insert (r, c) N) (updCell g r c (\<lambda>c. c\<lparr>isRevealed := True\<rparr>))"
  unfolding uncovers_def
proof (intro allI)
  fix r' c'
  from assms(1) have view: "cellAt g r' c' =
      map_option (\<lambda>x. if (r', c') \<in> N then x\<lparr>isRevealed := True\<rparr> else x) (cellAt G r' c')"
    by (simp add: uncovers_def)
  show "cellAt (updCell g r c (\<lambda>c. c\<lparr>isRevealed := True\<rparr>)) r' c' =
      map_option (\<lambda>x. if (r', c') \<in> insert (r, c) N then x\<lparr>isRevealed := True\<rparr> else x) (cellAt G r' c')"
  proof (cases "r' = r \<and> c' = c")
    case True
    with view assms(2) show ?thesis
      by (cases "cellAt G r c") (auto simp: cellAt_updCell[OF assms(2)])
  next
    case False
    with view show ?thesis by (auto simp: cellAt_updCell[OF assms(2)])
  qed
qed

lemma uncovers_open:
  assumes "uncovers G N g"
  shows "openCell g q \<longleftrightarrow> openCell G q \<and> q \<notin> N"
proof -
  from assms have "cellAt g (fst q) (snd q) =
      map_option (\<lambda>x. if q \<in> N then x\<lparr>isRevealed := True\<rparr> else x) (cellAt G (fst q) (snd q))"
    by (simp add: uncovers_def)
  then show ?thesis
    by (cases "cellAt G (fst q) (snd q)") (auto simp: openCell_def)
qed

lemma uncovers_cell:
  assumes "uncovers G N g" and "q \<notin> N"
  shows "cellAt g (fst q) (snd q) = cellAt G (fst q) (snd q)"
proof -
  from assms(1) have "cellAt g (fst q) (snd q) =
      map_option (\<lambda>x. if q \<in> N then x\<lparr>isRevealed := True\<rparr> else x) (cellAt G (fst q) (snd q))"
    by (simp add: uncovers_def)
  with assms(2) show ?thesis by (simp add: option.map_ident)
qed

lemma expandStep_effect:
  assumes wf: "wellFormed d g" and un: "uncovers G N g" and q: "q = (r + fst off, c + snd off)"
  shows "\<exists>g'. expandStep d r c off (g, queue)
                 = Ok (g', if blankCell G q \<and> q \<notin> N then queue @ [q] else queue)
           \<and> wellFormed d g' \<and> uncovers G (if openCell G q then insert q N else N) g'"
proof (cases "openCell g q")
  case True
  then obtain y where y: "cellAt g (fst q) (snd q) = Some y"
    and op: "\<not> isRevealed y" "\<not> isFlagged y" "\<not> isMine y"
    by (auto simp: openCell_def split: option.splits)
  from True uncovers_open[OF un] have G: "openCell G q" "q \<notin> N" by simp_all
  from uncovers_cell[OF un G(2)] y have "cellAt G (fst q) (snd q) = Some y" by simp
  with op have blank: "blankCell G q \<longleftrightarrow> neighborMines y = 0" by (simp add: blankCell_def)
  from wellFormed_cellAt[OF wf, of "fst q" "snd q"] y have "inGrid d (fst q) (snd q)" by simp
  with y op q have "expandStep d r c off (g, queue)
      = Ok (updCell g (fst q) (snd q) (\<lambda>c. c\<lparr>isRevealed := True\<rparr>),
            if neighborMines y = 0 then queue @ [q] else queue)"
    by (simp add: expandStep_def Let_def case_prod_beta)
  moreover have "uncovers G (insert q N) (updCell g (fst q) (snd q) (\<lambda>c. c\<lparr>isRevealed := True\<rparr>))"
    using uncovers_updCell[OF un y] by simp
  ultimately show ?thesis using G blank wellFormed_updCell[OF wf] by auto
next
  case False
  with uncovers_open[OF un] have notnew: "openCell G q \<longrightarrow> q \<in> N" by simp
  have "expandStep d r c off (g, queue) = Ok (g, queue)"
  proof (cases "cellAt g (fst q) (snd q)")
    case None
    with wellFormed_cellAt[OF wf, of "fst q" "snd q"] have "\<not> inGrid d (fst q) (snd q)" by simp
    with q show ?thesis by (simp add: expandStep_def Let_def case_prod_beta)
  next
    case (Some y)
    with False have "\<not> (\<not> isRevealed y \<and> \<not> isFlagged y \<and> \<not> isMine y)"
      by (simp add: openCell_def)
    with Some q show ?thesis by (auto simp: expandStep_def Let_def case_prod_beta)
  qed
  moreover from notnew have "(if openCell G q then insert q N else N) = N" by auto
  moreover from notnew blankCell_open[of G q] have "\<not> (blankCell G q \<and> q \<notin> N)" by blast
  ultimately show ?thesis using wf un by simp
qed

lemma expand_effect:
  assumes "wellFormed d g" and "uncovers G N g"
  shows "\<exists>g' queue'. forEach offs (expandStep d r c) (g, queue) = Ok (g', queue')
           \<and> wellFormed d g'
           \<and> uncovers G (N \<union> {q \<in> (\<lambda>off. (r + fst off, c + snd off)) ` set offs. openCell G q}) g'
           \<and> set queue' = set queue
                 \<union> {q \<in> (\<lambda>off. (r + fst off, c + snd off)) ` set offs. blankCell G q \<and> q \<notin> N}"
  using assms
proof (induction offs arbitrary: g N queue)
  case Nil
  then show ?case by simp
next
  case (Cons off offs)
  let ?shift = "\<lambda>off. (r + fst off, c + snd off)"
  define q where "q = ?shift off"
  define N1 where "N1 = (if openCell G q then insert q N else N)"
  define queue1 where "queue1 = (if blankCell G q \<and> q \<notin> N then queue @ [q] else queue)"
  from expandStep_effect[OF Cons.prems q_def, of queue] obtain g1 where
    step: "expandStep d r c off (g, queue) = Ok (g1, queue1)"
    and wf1: "wellFormed d g1" and un1: "uncovers G N1 g1"
    by (auto simp: N1_def queue1_def)
  from Cons.IH[OF wf1 un1, of queue1] obtain g' queue' where
    run: "forEach offs (expandStep d r c) (g1, queue1) = Ok (g', queue')"
    and wf': "wellFormed d g'"
    and un': "uncovers G (N1 \<union> {q \<in> ?shift ` set offs. openCell G q}) g'"
    and qs: "set queue' = set queue1 \<union> {q \<in> ?shift ` set offs. blankCell G q \<and> q \<notin> N1}"
    by blast
  have "N1 \<union> {q \<in> ?shift ` set offs. openCell G q}
          = N \<union> {q \<in> ?shift ` set (off # offs). openCell G q}"
    by (auto simp: N1_def q_def)
  moreover have "set queue1 \<union> {q \<in> ?shift ` set offs. blankCell G q \<and> q \<notin> N1}
          = set queue \<union> {q \<in> ?shift ` set (off # offs). blankCell G q \<and> q \<notin> N}"
    using blankCell_open[of G q] by (auto simp: N1_def queue1_def q_def)
  moreover from step run have "forEach (off # offs) (expandStep d r c) (g, queue) = Ok (g', queue')"
    by simp
  ultimately show ?case using wf' un' qs by auto
qed

lemma near_offsets:
  "q \<in> (\<lambda>off. (r + fst off, c + snd off)) ` set offsets \<longleftrightarrow> q = (r, c) \<or> adjacent8 (r, c) q"
proof -
  have "(r, c) \<in> (\<lambda>off. (r + fst off, c + snd off)) ` set offsets"
    by (rule image_eqI[of _ _ "(0, 0)"]) (simp_all add: offsets_def)
  then show ?thesis by (auto simp: adjacent8_offsets)
qed

lemma floodInv_skip:
  assumes "floodInv G s N ((r, c) # queue) visited" and "(r, c) \<in> set visited"
  shows "floodInv G s N queue visited"
  using assms unfolding floodInv_def by auto

lemma floodInv_expand:
  assumes inv: "floodInv G s N ((r, c) # queue) visited"
    and blank: "blankCell G s"
    and N': "N' = N \<union> {q \<in> (\<lambda>off. (r + fst off, c + snd off)) ` set offsets. openCell G q}"
    and queue': "set queue' = set queue
           \<union> {q \<in> (\<lambda>off. (r + fst off, c + snd off)) ` set offsets. blankCell G q \<and> q \<notin> N}"
  shows "floodInv G s N' queue' ((r, c) # visited)"
proof -
  let ?Z = "blankRegion G s"
  from inv have sub: "N \<subseteq> reach G s" and vis: "set visited \<subseteq> ?Z"
    and rc: "(r, c) \<in> ?Z" and qu: "set queue \<subseteq> ?Z"
    and cover: "?Z \<inter> N \<subseteq> set visited \<union> set ((r, c) # queue)"
    and closed: "\<And>v q. v \<in> set visited \<Longrightarrow> q = v \<or> adjacent8 v q \<Longrightarrow> openCell G q \<Longrightarrow> q \<in> N"
    and start: "s \<in> N"
    by (auto simp: floodInv_def)
  have near: "q \<in> (\<lambda>off. (r + fst off, c + snd off)) ` set offsets \<longleftrightarrow> q = (r, c) \<or> adjacent8 (r, c) q"
    for q by (rule near_offsets)
  have N'eq: "N' = N \<union> {q. (q = (r, c) \<or> adjacent8 (r, c) q) \<and> openCell G q}"
    unfolding N' near by blast
  have queue'eq: "set queue' = set queue
          \<union> {q. (q = (r, c) \<or> adjacent8 (r, c) q) \<and> blankCell G q \<and> q \<notin> N}"
    unfolding queue' near by blast
  have 1: "N' \<subseteq> reach G s"
  proof
    fix q assume "q \<in> N'"
    with N'eq sub rc show "q \<in> reach G s" by (auto simp: reach_def)
  qed
  have 2: "set ((r, c) # visited) \<subseteq> ?Z" using vis rc by simp
  have 3: "set queue' \<subseteq> ?Z"
  proof
    fix q assume "q \<in> set queue'"
    with queue'eq consider "q \<in> set queue" | "q = (r, c)" | "adjacent8 (r, c) q" "blankCell G q"
      by auto
    then show "q \<in> ?Z"
    proof cases
      case 1 with qu show ?thesis by blast
    next
      case 2 with rc show ?thesis by simp
    next
      case 3 from blankRegion_step[OF rc 3] show ?thesis .
    qed
  qed
  have 4: "?Z \<inter> N' \<subseteq> set ((r, c) # visited) \<union> set queue'"
  proof
    fix q assume q: "q \<in> ?Z \<inter> N'"
    show "q \<in> set ((r, c) # visited) \<union> set queue'"
    proof (cases "q \<in> N")
      case True
      with q cover have "q \<in> set visited \<union> set ((r, c) # queue)" by blast
      with queue'eq show ?thesis by auto
    next
      case False
      with q N'eq have nb: "q = (r, c) \<or> adjacent8 (r, c) q" by blast
      from q have "blankCell G q" using blankRegion_blank[OF blank] by blast
      with nb False queue'eq show ?thesis by auto
    qed
  qed
  have 5: "\<forall>v\<in>set ((r, c) # visited). \<forall>q. (q = v \<or> adjacent8 v q) \<and> openCell G q \<longrightarrow> q \<in> N'"
  proof (intro ballI allI impI)
    fix v q assume v: "v \<in> set ((r, c) # visited)" and q: "(q = v \<or> adjacent8 v q) \<and> openCell G q"
    show "q \<in> N'"
    proof (cases "v = (r, c)")
      case True
      with q N'eq show ?thesis by blast
    next
      case False
      with v have "v \<in> set visited" by simp
      from closed[OF this] q N'eq show ?thesis by blast
    qed
  qed
  have 6: "s \<in> N'" using start N'eq by blast
  from 1 2 3 4 5 6 show ?thesis unfolding floodInv_def by blast
qed

lemma floodFill_correct:
  assumes "wellFormed d g" and "uncovers G N g" and "blankCell G s"
    and "floodInv G s N queue visited"
  shows "\<exists>g'. floodFill d g queue visited = Ok g' \<and> wellFormed d g' \<and> uncovers G (reach G s) g'"
  using assms
proof (induction d g queue visited arbitrary: N rule: floodFill.induct)
  case (1 d g visited)
  from floodInv_done[OF "1.prems"(4)] "1.prems"(1,2) show ?case by simp
next
  case (2 d g r c queue visited)
  show ?case
  proof (cases "(r, c) \<in> set visited")
    case True
    from "2.IH"(1)[OF True "2.prems"(1,2,3) floodInv_skip[OF "2.prems"(4) True]] True
    show ?thesis by simp
  next
    case False
    from expand_effect[OF "2.prems"(1,2), of offsets r c queue] obtain g1 queue1 where
      run: "forEach offsets (expandStep d r c) (g, queue) = Ok (g1, queue1)"
      and wf1: "wellFormed d g1"
      and un1: "uncovers G (N \<union> {q \<in> (\<lambda>off. (r + fst off, c + snd off)) ` set offsets. openCell G q}) g1"
      and qs: "set queue1 = set queue
           \<union> {q \<in> (\<lambda>off. (r + fst off, c + snd off)) ` set offsets. blankCell G q \<and> q \<notin> N}"
      by blast
    from floodInv_expand[OF "2.prems"(4,3) refl qs]
    have inv1: "floodInv G s (N \<union> {q \<in> (\<lambda>off. (r + fst off, c + snd off)) ` set offsets. openCell G q})
                  queue1 ((r, c) # visited)" .
    from "2.IH"(2)[OF False run refl wf1 un1 "2.prems"(3) inv1] False run
    show ?thesis by simp
  qed
qed

lemma uncovers_refl: "uncovers G {} G"
  by (simp add: uncovers_def option.map_ident)

lemma reach_open: "q \<in> reach G s \<Longrightarrow> openCell G q"
  by (simp add: reach_def)

lemma blank_flood:
  assumes wf: "wellFormed d G" and blank: "blankCell G (row, col)"
  shows "\<exists>g'. floodFill d (updCell G row col (\<lambda>c. c\<lparr>isRevealed := True\<rparr>)) [(row, col)] [] = Ok g'
           \<and> wellFormed d g' \<and> uncovers G (floodArea G (row, col)) g'"
proof -
  from blank obtain cell where cell: "cellAt G row col = Some cell"
    by (auto simp: blankCell_def split: option.splits)
  let ?g0 = "updCell G row col (\<lambda>c. c\<lparr>isRevealed := True\<rparr>)"
  have un0: "uncovers G {(row, col)} ?g0"
    using uncovers_updCell[OF uncovers_refl cell] by simp
  have "(row, col) \<in> reach G (row, col)"
    using blankCell_open[OF blank] blankRegion_start[of "(row, col)" G] by (auto simp: reach_def)
  then have inv0: "floodInv G (row, col) {(row, col)} [(row, col)] []"
    using blankRegion_start[of "(row, col)" G] by (simp add: floodInv_def)
  from floodFill_correct[OF wellFormed_updCell[OF wf] un0 blank inv0]
  show ?thesis by (simp add: reach_floodArea[OF blank])
qed

subsection \<open>The length of the grid under the flood fill\<close>

lemma expandStep_length:
  "expandStep d r c off (g, q) = Ok (g', q') \<Longrightarrow> length g' = length g"
  by (auto simp: expandStep_def Let_def case_prod_beta split: if_splits option.splits)

lemma expand_length:
  "forEach offs (expandStep d r c) (g, q) = Ok (g', q') \<Longrightarrow> length g' = length g"
proof (induction offs arbitrary: g q)
  case Nil
  then show ?case by simp
next
  case (Cons off offs)
  from Cons.prems obtain g1 q1 where
    step: "expandStep d r c off (g, q) = Ok (g1, q1)"
    and rest: "forEach offs (expandStep d r c) (g1, q1) = Ok (g', q')"
    by (auto simp: andThen_Ok_iff)
  from expandStep_length[OF step] Cons.IH[OF rest] show ?case by simp
qed

lemma floodFill_length:
  "floodFill d g queue visited = Ok g' \<Longrightarrow> length g' = length g"
proof (induction d g queue visited rule: floodFill.induct)
  case (1 d g visited)
  then show ?case by simp
next
  case (2 d g r c queue visited)
  show ?case
  proof (cases "(r, c) \<in> set visited")
    case True
    with "2.prems" "2.IH"(1) show ?thesis by simp
  next
    case False
    with "2.prems" obtain g1 q1 where
      run: "forEach offsets (expandStep d r c) (g, queue) = Ok (g1, q1)"
      and rest: "floodFill d g1 q1 ((r, c) # visited) = Ok g'"
      by (auto split: result.splits)
    from "2.IH"(2)[OF False run refl rest] expand_length[OF run] show ?thesis by simp
  qed
qed

lemma cellAt_nonempty: "cellAt g r c = Some cell \<Longrightarrow> g \<noteq> []"
  by (auto simp: cellAt_def split: if_splits)

subsection \<open>The chord\<close>

lemma around_card:
  assumes "\<not> Q (row, col)"
  shows "length (filter (\<lambda>off. Q (row + fst off, col + snd off)) offsets)
           = card {q. adjacent8 (row, col) q \<and> Q q}"
proof -
  let ?shift = "\<lambda>off. (row + fst off, col + snd off)"
  let ?hits = "filter (\<lambda>off. Q (?shift off)) offsets"
  have inj: "inj_on ?shift A" for A
    by (rule inj_onI) (auto simp: prod_eq_iff)
  have "{q. adjacent8 (row, col) q \<and> Q q} = ?shift ` set ?hits"
    using assms by (auto simp: adjacent8_offsets)
  then have "card {q. adjacent8 (row, col) q \<and> Q q} = card (?shift ` set ?hits)" by simp
  also have "\<dots> = card (set ?hits)" by (rule card_image[OF inj])
  also have "\<dots> = length ?hits"
    by (rule distinct_card) (simp add: distinct_offsets)
  finally show ?thesis by simp
qed

lemma flagStep_wellFormed:
  assumes "wellFormed d g"
  shows "flagStep d g row col off k
           = Ok (if flagAt g (row + fst off, col + snd off) then k + 1 else k)"
proof (cases "inGrid d (row + fst off) (col + snd off)")
  case True
  with wellFormed_cellAt[OF assms, of "row + fst off" "col + snd off"]
  obtain cell where "cellAt g (row + fst off) (col + snd off) = Some cell" by auto
  with True show ?thesis
    by (simp add: flagStep_def flagAt_def Let_def case_prod_beta)
next
  case False
  with wellFormed_cellAt[OF assms, of "row + fst off" "col + snd off"]
  have "cellAt g (row + fst off) (col + snd off) = None" by auto
  with False show ?thesis
    by (simp add: flagStep_def flagAt_def Let_def case_prod_beta)
qed

lemma flag_loop:
  assumes "wellFormed d g"
  shows "forEach offs (flagStep d g row col) k
           = Ok (k + length (filter (\<lambda>off. flagAt g (row + fst off, col + snd off)) offs))"
  by (induction offs arbitrary: k) (simp_all add: flagStep_wellFormed[OF assms])

lemma flag_count:
  assumes "wellFormed d g" and "\<not> flagAt g (row, col)"
  shows "forEach offsets (flagStep d g row col) 0 = Ok (flaggedNeighbors g row col)"
  using around_card[of "flagAt g" row col, OF assms(2)]
  by (simp add: flag_loop[OF assms(1)] flaggedNeighbors_def)

lemma wellFormed_revealAllMines: "wellFormed d g \<Longrightarrow> wellFormed d (revealAllMines g)"
  by (simp add: wellFormed_def revealAllMines_def list_all_length)

lemma uncovers_trans:
  assumes "uncovers G N g" and "uncovers g M g'"
  shows "uncovers G (N \<union> M) g'"
  unfolding uncovers_def
proof (intro allI)
  fix r c
  from assms have "cellAt g r c =
      map_option (\<lambda>x. if (r, c) \<in> N then x\<lparr>isRevealed := True\<rparr> else x) (cellAt G r c)"
    and "cellAt g' r c =
      map_option (\<lambda>x. if (r, c) \<in> M then x\<lparr>isRevealed := True\<rparr> else x) (cellAt g r c)"
    by (simp_all add: uncovers_def)
  then show "cellAt g' r c =
      map_option (\<lambda>x. if (r, c) \<in> N \<union> M then x\<lparr>isRevealed := True\<rparr> else x) (cellAt G r c)"
    by (cases "cellAt G r c") auto
qed

lemma uncovers_mineAt:
  assumes "uncovers G N g"
  shows "mineAt g = mineAt G"
proof (rule mineAt_cong)
  fix r c
  from assms have "cellAt g r c =
      map_option (\<lambda>x. if (r, c) \<in> N then x\<lparr>isRevealed := True\<rparr> else x) (cellAt G r c)"
    by (simp add: uncovers_def)
  then show "map_option isMine (cellAt g r c) = map_option isMine (cellAt G r c)"
    by (cases "cellAt G r c") auto
qed

lemma uncovers_loss:
  assumes "cellAt G r c = Some cell"
  shows "uncovers G (insert (r, c) {p. mineAt G p})
           (revealAllMines (updCell G r c (\<lambda>c. c\<lparr>isRevealed := True\<rparr>)))"
  unfolding uncovers_def
proof (intro allI)
  fix r' c'
  show "cellAt (revealAllMines (updCell G r c (\<lambda>c. c\<lparr>isRevealed := True\<rparr>))) r' c' =
      map_option (\<lambda>x. if (r', c') \<in> insert (r, c) {p. mineAt G p} then x\<lparr>isRevealed := True\<rparr> else x)
        (cellAt G r' c')"
  proof (cases "r' = r \<and> c' = c")
    case True
    with assms show ?thesis
      by (simp add: cellAt_revealAllMines cellAt_updCell[OF assms])
  next
    case False
    then show ?thesis
      by (cases "cellAt G r' c'")
         (auto simp: cellAt_revealAllMines cellAt_updCell[OF assms] mineAt_def)
  qed
qed

lemma open_not_mine: "openCell g p \<Longrightarrow> \<not> mineAt g p"
  by (auto simp: openCell_def mineAt_def split: option.splits)

lemma updater_effect:
  assumes wf: "wellFormed d (grid st)" and cell: "cellAt (grid st) r c = Some x"
  shows "\<exists>st' M. revealCellUpdater d False r c st = Ok st'
           \<and> wellFormed d (grid st') \<and> uncovers (grid st) M (grid st')
           \<and> (\<not> isRevealed x \<and> \<not> isFlagged x \<longrightarrow> (r, c) \<in> M)
           \<and> (gameStatus st' = Lost
                \<or> gameStatus st' = gameStatus st \<and> (\<forall>p\<in>M. openCell (grid st) p))
           \<and> firstClick st' = firstClick st"
proof -
  let ?g1 = "updCell (grid st) r c (\<lambda>c. c\<lparr>isRevealed := True\<rparr>)"
  consider (noop) "isRevealed x \<or> isFlagged x"
    | (mine) "\<not> isRevealed x" "\<not> isFlagged x" "isMine x"
    | (blank) "\<not> isRevealed x" "\<not> isFlagged x" "\<not> isMine x" "neighborMines x = 0"
    | (number) "\<not> isRevealed x" "\<not> isFlagged x" "\<not> isMine x" "neighborMines x \<noteq> 0"
    by blast
  then show ?thesis
  proof cases
    case noop
    with cell have "revealCellUpdater d False r c st = Ok st"
      by (auto simp: revealCellUpdater_def)
    with wf noop uncovers_refl[of "grid st"] show ?thesis by (intro exI[of _ st] exI[of _ "{}"]) auto
  next
    case mine
    define st' where "st' = st\<lparr>gameStatus := Lost, isTimerRunning := False, grid := revealAllMines ?g1\<rparr>"
    from mine cell have "revealCellUpdater d False r c st = Ok st'"
      by (simp add: revealCellUpdater_def Let_def st'_def)
    moreover have "wellFormed d (grid st')"
      by (simp add: st'_def wellFormed_revealAllMines wellFormed_updCell[OF wf])
    moreover have "uncovers (grid st) (insert (r, c) {p. mineAt (grid st) p}) (grid st')"
      using uncovers_loss[OF cell] by (simp add: st'_def)
    moreover have "gameStatus st' = Lost" "firstClick st' = firstClick st" by (simp_all add: st'_def)
    ultimately show ?thesis
      by (intro exI[of _ st'] exI[of _ "insert (r, c) {p. mineAt (grid st) p}"]) simp
  next
    case blank
    with cell have bl: "blankCell (grid st) (r, c)" by (simp add: blankCell_def)
    from blank_flood[OF wf bl] obtain g' where
      fill: "floodFill d ?g1 [(r, c)] [] = Ok g'" and wf': "wellFormed d g'"
      and un: "uncovers (grid st) (floodArea (grid st) (r, c)) g'"
      by blast
    from blank cell fill have "revealCellUpdater d False r c st = Ok (st\<lparr>grid := g'\<rparr>)"
      by (simp add: revealCellUpdater_def Let_def)
    moreover have "(r, c) \<in> floodArea (grid st) (r, c)"
      using blankRegion_start[of "(r, c)" "grid st"] by (simp add: floodArea_def)
    moreover have "openCell (grid st) p" if "p \<in> floodArea (grid st) (r, c)" for p
      using that reach_open[of p "grid st" "(r, c)"] reach_floodArea[OF bl] by simp
    ultimately show ?thesis using wf' un
      by (intro exI[of _ "st\<lparr>grid := g'\<rparr>"] exI[of _ "floodArea (grid st) (r, c)"]) simp
  next
    case number
    with cell have "revealCellUpdater d False r c st = Ok (st\<lparr>grid := ?g1\<rparr>)"
      by (simp add: revealCellUpdater_def Let_def)
    moreover have "uncovers (grid st) {(r, c)} ?g1"
      using uncovers_updCell[OF uncovers_refl cell] by simp
    moreover have "openCell (grid st) (r, c)" using cell number by (simp add: openCell_def)
    ultimately show ?thesis using wellFormed_updCell[OF wf]
      by (intro exI[of _ "st\<lparr>grid := ?g1\<rparr>"] exI[of _ "{(r, c)}"]) simp
  qed
qed

lemma chord_loop:
  assumes "wellFormed d G" and "wellFormed d (grid st)" and "uncovers G N (grid st)"
    and "gameStatus st = Lost \<or> (\<forall>p\<in>N. openCell G p)"
  shows "\<exists>st' N'. forEach offs (chordStep d G False row col) st = Ok st'
           \<and> wellFormed d (grid st') \<and> uncovers G N' (grid st')
           \<and> (gameStatus st' = Lost \<or> gameStatus st' = gameStatus st \<and> (\<forall>p\<in>N'. openCell G p))
           \<and> (\<forall>q\<in>(\<lambda>off. (row + fst off, col + snd off)) ` set offs. coveredCell G q \<longrightarrow> q \<in> N')
           \<and> N \<subseteq> N' \<and> firstClick st' = firstClick st"
  using assms(2,3,4)
proof (induction offs arbitrary: st N)
  case Nil
  then show ?case by (intro exI[of _ st] exI[of _ N]) auto
next
  case (Cons off offs)
  let ?shift = "\<lambda>off. (row + fst off, col + snd off)"
  define q where "q = ?shift off"
  have "\<exists>st1 N1. chordStep d G False row col off st = Ok st1
           \<and> wellFormed d (grid st1) \<and> uncovers G N1 (grid st1)
           \<and> (gameStatus st1 = Lost \<or> gameStatus st1 = gameStatus st \<and> (\<forall>p\<in>N1. openCell G p))
           \<and> (coveredCell G q \<longrightarrow> q \<in> N1) \<and> N \<subseteq> N1 \<and> firstClick st1 = firstClick st"
  proof (cases "coveredCell G q")
    case False
    have "chordStep d G False row col off st = Ok st"
    proof (cases "cellAt G (fst q) (snd q)")
      case None
      with wellFormed_cellAt[OF assms(1), of "fst q" "snd q"] have "\<not> inGrid d (fst q) (snd q)" by simp
      then show ?thesis by (simp add: chordStep_def Let_def case_prod_beta q_def)
    next
      case (Some x)
      with False have "\<not> (\<not> isRevealed x \<and> \<not> isFlagged x)" by (simp add: coveredCell_def)
      with Some show ?thesis by (auto simp: chordStep_def Let_def case_prod_beta q_def)
    qed
    with False Cons.prems show ?thesis by (intro exI[of _ st] exI[of _ N]) auto
  next
    case True
    then obtain x where x: "cellAt G (fst q) (snd q) = Some x" "\<not> isRevealed x" "\<not> isFlagged x"
      by (auto simp: coveredCell_def split: option.splits)
    from wellFormed_cellAt[OF assms(1), of "fst q" "snd q"] x(1) have "inGrid d (fst q) (snd q)" by simp
    with x have step: "chordStep d G False row col off st = revealCellUpdater d False (fst q) (snd q) st"
      by (simp add: chordStep_def Let_def case_prod_beta q_def)
    from Cons.prems(2) have view: "cellAt (grid st) (fst q) (snd q) =
        map_option (\<lambda>x. if q \<in> N then x\<lparr>isRevealed := True\<rparr> else x) (cellAt G (fst q) (snd q))"
      by (simp add: uncovers_def)
    define y where "y = (if q \<in> N then x\<lparr>isRevealed := True\<rparr> else x)"
    from view x(1) have y: "cellAt (grid st) (fst q) (snd q) = Some y" by (simp add: y_def)
    from updater_effect[OF Cons.prems(1) y] obtain st1 M where
      run: "revealCellUpdater d False (fst q) (snd q) st = Ok st1"
      and wf1: "wellFormed d (grid st1)" and un1: "uncovers (grid st) M (grid st1)"
      and hit: "\<not> isRevealed y \<and> \<not> isFlagged y \<longrightarrow> q \<in> M"
      and status: "gameStatus st1 = Lost
                    \<or> gameStatus st1 = gameStatus st \<and> (\<forall>p\<in>M. openCell (grid st) p)"
      and fc: "firstClick st1 = firstClick st"
      by auto
    have "q \<in> N \<union> M" using hit x(2,3) by (auto simp: y_def)
    moreover have "uncovers G (N \<union> M) (grid st1)" by (rule uncovers_trans[OF Cons.prems(2) un1])
    moreover have "gameStatus st1 = Lost
        \<or> gameStatus st1 = gameStatus st \<and> (\<forall>p\<in>N \<union> M. openCell G p)"
      using status Cons.prems(3) uncovers_open[OF Cons.prems(2)] by auto
    ultimately show ?thesis using step run wf1 fc
      by (intro exI[of _ st1] exI[of _ "N \<union> M"]) auto
  qed
  then obtain st1 N1 where step: "chordStep d G False row col off st = Ok st1"
    and wf1: "wellFormed d (grid st1)" and un1: "uncovers G N1 (grid st1)"
    and status1: "gameStatus st1 = Lost \<or> gameStatus st1 = gameStatus st \<and> (\<forall>p\<in>N1. openCell G p)"
    and hit1: "coveredCell G q \<longrightarrow> q \<in> N1" and sub1: "N \<subseteq> N1"
    and fc1: "firstClick st1 = firstClick st"
    by blast
  from status1 have pre: "gameStatus st1 = Lost \<or> (\<forall>p\<in>N1. openCell G p)" by blast
  from Cons.IH[OF wf1 un1 pre] obtain st' N' where
    run: "forEach offs (chordStep d G False row col) st1 = Ok st'"
    and wf': "wellFormed d (grid st')" and un': "uncovers G N' (grid st')"
    and status': "gameStatus st' = Lost \<or> gameStatus st' = gameStatus st1 \<and> (\<forall>p\<in>N'. openCell G p)"
    and hit': "\<forall>q\<in>?shift ` set offs. coveredCell G q \<longrightarrow> q \<in> N'"
    and sub': "N1 \<subseteq> N'"
    and fc': "firstClick st' = firstClick st1"
    by blast
  have "forEach (off # offs) (chordStep d G False row col) st = Ok st'" using step run by simp
  moreover have "gameStatus st' = Lost \<or> gameStatus st' = gameStatus st \<and> (\<forall>p\<in>N'. openCell G p)"
    using status' status1 by auto
  moreover have "firstClick st' = firstClick st" using fc' fc1 by simp
  moreover have "\<forall>q\<in>?shift ` set (off # offs). coveredCell G q \<longrightarrow> q \<in> N'"
    using hit' hit1 sub' by (auto simp: q_def)
  moreover have "N \<subseteq> N'" using sub1 sub' by blast
  ultimately show ?case using wf' un' by blast
qed

subsection \<open>The states a game goes through\<close>

text \<open>
  In every state of a game the grid is well formed and the win check changes nothing; a
  revealed cell exists only past the first click, and while the game is being played a
  revealed cell carries no flag. These are the side conditions of the theorems on
  \<open>reveal\<close> and \<open>revealAdjacent\<close> below.
\<close>

lemma checkWinCondition_idem: "checkWinCondition (checkWinCondition st) = checkWinCondition st"
  by (simp add: checkWinCondition_def Let_def)

lemma checkWinCondition_firstClick [simp]: "firstClick (checkWinCondition st) = firstClick st"
  by (simp add: checkWinCondition_def Let_def)

lemma cellsInv_check:
  assumes "cellsInv d st"
  shows "gameInv d (checkWinCondition st)"
proof -
  have "gameStatus (checkWinCondition st) = Playing \<Longrightarrow> gameStatus st = Playing"
    by (simp add: checkWinCondition_status split: if_splits)
  with assms have "cellsInv d (checkWinCondition st)"
    unfolding cellsInv_def by auto
  then show ?thesis by (simp add: gameInv_def checkWinCondition_idem)
qed

lemma cellsInv_uncovers:
  assumes inv: "cellsInv d st" and nf: "\<not> firstClick st"
    and wf1: "wellFormed d (grid st1)" and un: "uncovers (grid st) N (grid st1)"
    and fc: "firstClick st1 = firstClick st"
    and status: "gameStatus st1 = Lost
                  \<or> gameStatus st1 = gameStatus st \<and> (\<forall>p\<in>N. openCell (grid st) p)"
  shows "cellsInv d st1"
proof -
  have "\<not> isFlagged y"
    if playing: "gameStatus st1 = Playing" and y: "cellAt (grid st1) r c = Some y" "isRevealed y"
    for r c y
  proof -
    from playing status have same: "gameStatus st = Playing"
      and opened: "\<forall>p\<in>N. openCell (grid st) p" by auto
    from un have view: "cellAt (grid st1) r c =
        map_option (\<lambda>x. if (r, c) \<in> N then x\<lparr>isRevealed := True\<rparr> else x) (cellAt (grid st) r c)"
      by (simp add: uncovers_def)
    with y(1) obtain x where x: "cellAt (grid st) r c = Some x"
      and yx: "y = (if (r, c) \<in> N then x\<lparr>isRevealed := True\<rparr> else x)"
      by (cases "cellAt (grid st) r c") auto
    show ?thesis
    proof (cases "(r, c) \<in> N")
      case True
      with opened have "openCell (grid st) (r, c)" by blast
      with x have "\<not> isFlagged x" by (simp add: openCell_def)
      with yx show ?thesis by simp
    next
      case False
      with yx y(2) have "isRevealed x" "y = x" by simp_all
      with inv same x show ?thesis by (auto simp: cellsInv_def)
    qed
  qed
  with wf1 fc nf show ?thesis unfolding cellsInv_def by blast
qed

lemma cellsInv_revealCell:
  assumes inv: "cellsInv d st" and run: "revealCell d st row col = Ok st1"
  shows "cellsInv d st1"
proof (cases "gameStatus st = Playing")
  case False
  with run inv show ?thesis by (simp add: revealCell_def)
next
  case True
  show ?thesis
  proof (cases "firstClick st")
    case first: True
    with run True obtain g rest where
      gen: "initializeGrid d (Some row) (Some col) (randomSource st) = Ok (g, rest)"
      and st1: "st1 = st\<lparr>firstClick := False, isTimerRunning := True, grid := g, randomSource := rest\<rparr>"
      by (auto simp: revealCell_def revealCellUpdater_def andThen_Ok_iff)
    from initializeGrid_Ok(1)[OF gen] initializeGrid_Ok(3)[OF gen] show ?thesis
      by (auto simp: cellsInv_def st1)
  next
    case False
    from inv have wf: "wellFormed d (grid st)" by (simp add: cellsInv_def)
    from run True False have upd: "revealCellUpdater d False row col st = Ok st1"
      by (simp add: revealCell_def)
    then obtain x where x: "cellAt (grid st) row col = Some x"
      by (cases "cellAt (grid st) row col") (auto simp: revealCellUpdater_def)
    from updater_effect[OF wf x] upd obtain M where
      "wellFormed d (grid st1)" "uncovers (grid st) M (grid st1)"
      "gameStatus st1 = Lost \<or> gameStatus st1 = gameStatus st \<and> (\<forall>p\<in>M. openCell (grid st) p)"
      "firstClick st1 = firstClick st"
      by auto
    with cellsInv_uncovers[OF inv False] show ?thesis by blast
  qed
qed

lemma cellsInv_toggleFlag:
  assumes inv: "cellsInv d st" and run: "toggleFlag st row col = Ok st1"
  shows "cellsInv d st1"
proof (cases "gameStatus st = Playing")
  case False
  with run inv show ?thesis by (simp add: toggleFlag_def)
next
  case True
  with run obtain x where x: "cellAt (grid st) row col = Some x"
    by (cases "cellAt (grid st) row col") (auto simp: toggleFlag_def)
  show ?thesis
  proof (cases "isRevealed x")
    case rev: True
    with run True x inv show ?thesis by (simp add: toggleFlag_def)
  next
    case False
    with run True x
    have st1: "st1 = st\<lparr>grid := updCell (grid st) row col (\<lambda>c. c\<lparr>isFlagged := \<not> isFlagged c\<rparr>)\<rparr>"
      by (simp add: toggleFlag_def)
    have view: "cellAt (grid st1) r c
        = (if r = row \<and> c = col then Some (x\<lparr>isFlagged := \<not> isFlagged x\<rparr>) else cellAt (grid st) r c)"
      for r c by (simp add: st1 cellAt_updCell[OF x])
    from inv have wf: "wellFormed d (grid st1)"
      by (simp add: st1 cellsInv_def wellFormed_updCell)
    have a: "\<not> isRevealed y" if "firstClick st1" "cellAt (grid st1) r c = Some y" for r c y
      using that inv False x view[of r c] by (auto simp: cellsInv_def st1 split: if_splits)
    have b: "\<not> isFlagged y" if "gameStatus st1 = Playing" "cellAt (grid st1) r c = Some y" "isRevealed y"
      for r c y
      using that inv False x view[of r c] by (auto simp: cellsInv_def st1 split: if_splits)
    from wf a b show ?thesis unfolding cellsInv_def by blast
  qed
qed

lemma cellsInv_revealAdjacent:
  assumes inv: "cellsInv d st" and run: "revealAdjacent d st row col = Ok st1"
  shows "cellsInv d st1"
proof (cases "gameStatus st = Playing")
  case False
  with run inv show ?thesis by (simp add: revealAdjacent_def)
next
  case True
  from inv have wf: "wellFormed d (grid st)" by (simp add: cellsInv_def)
  from run True obtain x where x: "cellAt (grid st) row col = Some x"
    by (cases "cellAt (grid st) row col") (auto simp: revealAdjacent_def)
  show ?thesis
  proof (cases "\<not> isRevealed x \<or> neighborMines x = 0")
    case skip: True
    with run True x inv show ?thesis by (auto simp: revealAdjacent_def)
  next
    case False
    then have rev: "isRevealed x" by simp
    with inv x have nf: "\<not> firstClick st" by (auto simp: cellsInv_def)
    from inv True x rev have "\<not> isFlagged x" by (auto simp: cellsInv_def)
    with x have "\<not> flagAt (grid st) (row, col)" by (simp add: flagAt_def)
    from flag_count[OF wf this] run True x False nf
    have "st1 = st \<or> forEach offsets (chordStep d (grid st) False row col) st = Ok st1"
      by (auto simp: revealAdjacent_def split: if_splits)
    then show ?thesis
    proof
      assume "st1 = st"
      with inv show ?thesis by simp
    next
      assume loop: "forEach offsets (chordStep d (grid st) False row col) st = Ok st1"
      have "gameStatus st = Lost \<or> (\<forall>p\<in>{}. openCell (grid st) p)" by simp
      from chord_loop[OF wf wf uncovers_refl this, of offsets row col] loop obtain N' where
        "wellFormed d (grid st1)" "uncovers (grid st) N' (grid st1)"
        "gameStatus st1 = Lost \<or> gameStatus st1 = gameStatus st \<and> (\<forall>p\<in>N'. openCell (grid st) p)"
        "firstClick st1 = firstClick st"
        by auto
      with cellsInv_uncovers[OF inv nf] show ?thesis by blast
    qed
  qed
qed

lemma cellsInv_resetGame:
  assumes "resetGame d st0 = Ok st"
  shows "cellsInv d st"
proof -
  from assms obtain g rest where
    gen: "initializeGrid d None None (randomSource st0) = Ok (g, rest)"
    and st: "st = st0\<lparr>grid := g, gameStatus := Playing, timer := 0, isTimerRunning := False,
                      firstClick := True, randomSource := rest\<rparr>"
    by (auto simp: resetGame_def andThen_Ok_iff)
  from initializeGrid_Ok(1)[OF gen] initializeGrid_Ok(3)[OF gen] show ?thesis
    by (auto simp: cellsInv_def st)
qed

lemma reachable_gameInv: "reachable d st \<Longrightarrow> gameInv d st"
proof (induction rule: reachable.induct)
  case (reset st0 st)
  from cellsInv_check[OF cellsInv_resetGame[OF reset]] show ?case .
next
  case (revealed st row col st')
  from revealed.hyps(2) obtain st1 where "revealCell d st row col = Ok st1"
    and st': "st' = checkWinCondition st1"
    by (auto simp: reveal_def andThen_Ok_iff)
  with revealed.IH have "cellsInv d st1" by (auto simp: gameInv_def intro: cellsInv_revealCell)
  then show ?case unfolding st' by (rule cellsInv_check)
next
  case (flagged st row col st')
  with cellsInv_toggleFlag[of d st row col st'] have "cellsInv d st'" by (simp add: gameInv_def)
  then show ?case by (rule cellsInv_check)
next
  case (chorded st row col st')
  from chorded.hyps(2) obtain st1 where "revealAdjacent d st row col = Ok st1"
    and st': "st' = checkWinCondition st1"
    by (auto simp: chordReveal_def andThen_Ok_iff)
  with chorded.IH have "cellsInv d st1" by (auto simp: gameInv_def intro: cellsInv_revealAdjacent)
  then show ?case unfolding st' by (rule cellsInv_check)
qed

lemma reachable_facts:
  assumes "reachable d st"
  shows "wellFormed d (grid st)" and "checkWinCondition st = st"
    and "cellAt (grid st) r c = Some x \<Longrightarrow> isRevealed x \<Longrightarrow> \<not> firstClick st"
    and "gameStatus st = Playing \<Longrightarrow> cellAt (grid st) r c = Some x \<Longrightarrow> isRevealed x
           \<Longrightarrow> \<not> isFlagged x"
  using reachable_gameInv[OF assms] by (auto simp: gameInv_def cellsInv_def)


subsection \<open>Generation returns\<close>

text \<open>
  Draws that lie in the grid and hold at least \<open>mines\<close> different cells other than the
  avoided one make \<open>initializeGrid\<close> return a board.
\<close>

lemma placeMines_returns:
  assumes "distinct mp"
    and "mines d \<le> card (set mp \<union> {p \<in> set draws. \<not> avoided avoidRow avoidCol p})"
  shows "\<exists>mp' rest. placeMines d avoidRow avoidCol mp draws = Ok (mp', rest)"
  using assms
proof (induction draws arbitrary: mp)
  case Nil
  then have "mines d \<le> length mp" by (simp add: distinct_card)
  then show ?case by simp
next
  case (Cons p draws)
  obtain row col where p: "p = (row, col)" by (cases p)
  show ?case
  proof (cases "length mp < mines d")
    case False
    with p show ?thesis by simp
  next
    case more: True
    show ?thesis
    proof (cases "avoided avoidRow avoidCol (row, col)")
      case True
      then have "{q \<in> set (p # draws). \<not> avoided avoidRow avoidCol q}
                   = {q \<in> set draws. \<not> avoided avoidRow avoidCol q}"
        using p by auto
      with Cons.prems(2)
      have "mines d \<le> card (set mp \<union> {p \<in> set draws. \<not> avoided avoidRow avoidCol p})"
        by simp
      from Cons.IH[OF Cons.prems(1) this] True more p show ?thesis
        by (auto simp: avoided_def)
    next
      case False
      have "set (setAdd (row, col) mp) \<union> {p \<in> set draws. \<not> avoided avoidRow avoidCol p}
              = set mp \<union> {q \<in> set (p # draws). \<not> avoided avoidRow avoidCol q}"
        using False p by auto
      with Cons.prems(2)
      have "mines d \<le> card (set (setAdd (row, col) mp) \<union> {p \<in> set draws. \<not> avoided avoidRow avoidCol p})"
        by simp
      from Cons.IH[OF _ this] Cons.prems(1) False more p show ?thesis
        by (auto simp: avoided_def)
    qed
  qed
qed

lemma setMines_returns:
  assumes "wellFormed d g" and "\<forall>p\<in>set ps. fst p < rows d \<and> snd p < cols d"
  shows "\<exists>g'. forEach ps setMine g = Ok g'"
  using assms
proof (induction ps arbitrary: g)
  case Nil
  then show ?case by simp
next
  case (Cons p ps)
  obtain row col where p: "p = (row, col)" by (cases p)
  with Cons.prems(2) have "inGrid d (int row) (int col)" by (simp add: inGrid_def)
  with wellFormed_cellAt[OF Cons.prems(1), of "int row" "int col"]
  obtain cell where "cellAt g (int row) (int col) = Some cell" by auto
  then have step: "setMine p g = Ok (updCell g (int row) (int col) (\<lambda>c. c\<lparr>isMine := True\<rparr>))"
    by (simp add: setMine_def p)
  from Cons.prems(2) have "\<forall>p\<in>set ps. fst p < rows d \<and> snd p < cols d" by simp
  from Cons.IH[OF wellFormed_updCell[OF Cons.prems(1)] this] step show ?case by simp
qed

lemma initializeGrid_returns:
  assumes valid: "\<forall>p\<in>set draws. fst p < rows d \<and> snd p < cols d"
    and enough: "mines d \<le> card {p \<in> set draws. \<not> avoided avoidRow avoidCol p}"
  shows "\<exists>g rest. initializeGrid d avoidRow avoidCol draws = Ok (g, rest)"
proof -
  from placeMines_returns[of "[]" d draws avoidRow avoidCol] enough obtain mp rest where
    place: "placeMines d avoidRow avoidCol [] draws = Ok (mp, rest)"
    by auto
  from placeMines_Ok[OF place] have dist: "distinct mp" and sub: "set mp \<subseteq> set draws"
    by simp_all
  from sub valid have inb: "\<forall>p\<in>set mp. fst p < rows d \<and> snd p < cols d" by blast
  from setMines_returns[OF wellFormed_emptyGrid inb] obtain mined where
    setm: "forEach mp setMine (emptyGrid d) = Ok mined" by blast
  have "\<forall>p\<in>set mp. \<not> mineAt (emptyGrid d) (int (fst p), int (snd p))"
    by (simp add: mineAt_def cellAt_emptyGrid emptyCell_def)
  from setMines_result[OF setm dist this wellFormed_emptyGrid] have wfm: "wellFormed d mined"
    by simp
  have "\<forall>p\<in>set (positions d). inGrid d (fst p) (snd p)" by (simp add: set_positions)
  from calc_loop[OF wfm this] obtain g where "forEach (positions d) (calcCell d) mined = Ok g"
    by blast
  with place setm show ?thesis by (simp add: initializeGrid_def)
qed

subsection \<open>The cells a chord reveals\<close>

text \<open>
  The reveals of a chord run one after the other, each on the grid the one before has left.
  What they uncover together is nevertheless the union of what each would uncover on the
  grid the chord was given: the set uncovered so far is settled, so a later reveal adds,
  outside of it, what it would have added at the start.
\<close>

lemma adjacent8_sym: "adjacent8 a b \<longleftrightarrow> adjacent8 b a"
  by (auto simp: adjacent8_def abs_minus_commute)

lemma floodArea_open: "blankCell G s \<Longrightarrow> p \<in> floodArea G s \<Longrightarrow> openCell G p"
  using reach_open[of p G s] reach_floodArea[of G s] by simp

lemma floodArea_blank_region:
  assumes "z \<in> floodArea G s" and "blankCell G z"
  shows "z \<in> blankRegion G s"
  using assms by (auto simp: floodArea_def)

lemma floodArea_closed:
  assumes blank: "blankCell G s" and z: "z \<in> floodArea G s" "blankCell G z"
    and q: "adjacent8 z q" "openCell G q"
  shows "q \<in> floodArea G s"
proof -
  from floodArea_blank_region[OF z] q have "q \<in> reach G s" by (auto simp: reach_def)
  then show ?thesis by (simp add: reach_floodArea[OF blank])
qed

lemma blank_not_mine: "blankCell G p \<Longrightarrow> \<not> mineAt G p"
  by (rule open_not_mine[OF blankCell_open])

lemma area_mine: "(\<exists>p\<in>revealArea G q. mineAt G p) \<longleftrightarrow> mineAt G q"
proof (cases "mineAt G q")
  case True
  then show ?thesis by (auto simp: revealArea_def)
next
  case False
  show ?thesis
  proof (cases "blankCell G q")
    case True
    with False open_not_mine[OF floodArea_open[OF True]] show ?thesis
      by (auto simp: revealArea_def)
  next
    case notblank: False
    with False show ?thesis by (simp add: revealArea_def)
  qed
qed

lemma area_self: "q \<in> revealArea G q"
  using blankRegion_start[of q G] by (auto simp: revealArea_def floodArea_def)

lemma settled_area: "settled G (revealArea G q)"
proof (cases "mineAt G q")
  case True
  then have "revealArea G q = {p. mineAt G p}" by (auto simp: revealArea_def)
  then show ?thesis using blank_not_mine[of G] by (auto simp: settled_def)
next
  case False
  show ?thesis
  proof (cases "blankCell G q")
    case True
    with False have eq: "revealArea G q = floodArea G q" by (simp add: revealArea_def)
    have "\<not> mineAt G p" if "p \<in> floodArea G q" for p
      using that open_not_mine[OF floodArea_open[OF True]] by blast
    moreover have "q' \<in> floodArea G q"
      if "z \<in> floodArea G q" "blankCell G z" "adjacent8 z q'" "openCell G q'" for z q'
      using floodArea_closed[OF True that] .
    ultimately show ?thesis unfolding settled_def eq by blast
  next
    case notblank: False
    with False show ?thesis by (simp add: revealArea_def settled_def)
  qed
qed

lemma settled_Union:
  assumes "\<forall>q\<in>P. settled G (A q)"
  shows "settled G (\<Union> (A ` P))"
  unfolding settled_def
proof (intro conjI ballI impI allI)
  fix z q assume "z \<in> \<Union> (A ` P)" "blankCell G z" "adjacent8 z q \<and> openCell G q"
  then obtain a where "a \<in> P" "z \<in> A a" by blast
  with assms \<open>blankCell G z\<close> \<open>adjacent8 z q \<and> openCell G q\<close> have "q \<in> A a"
    unfolding settled_def by blast
  with \<open>a \<in> P\<close> show "q \<in> \<Union> (A ` P)" by blast
next
  assume "\<exists>p\<in>\<Union> (A ` P). mineAt G p"
  then obtain a p where "a \<in> P" "p \<in> A a" "mineAt G p" by blast
  with assms have "{p. mineAt G p} \<subseteq> A a" unfolding settled_def by blast
  with \<open>a \<in> P\<close> show "{p. mineAt G p} \<subseteq> \<Union> (A ` P)" by blast
qed

lemma settled_region:
  assumes st: "settled G N" and q: "q \<in> N" and blank: "blankCell G q"
  shows "blankRegion G q \<subseteq> N"
proof
  fix z assume "z \<in> blankRegion G q"
  then have "(q, z) \<in> {(a, b). adjacent8 a b \<and> blankCell G b}\<^sup>*" by (simp add: blankRegion_def)
  then show "z \<in> N"
  proof (induction rule: rtrancl_induct)
    case base
    from q show ?case .
  next
    case (step y z)
    from step.hyps(1) have "y \<in> blankRegion G q" by (simp add: blankRegion_def)
    from blankRegion_blank[OF blank this] have "blankCell G y" .
    moreover from step.hyps(2) have "adjacent8 y z" "openCell G z"
      using blankCell_open[of G z] by auto
    ultimately show ?case using st step.IH unfolding settled_def by blast
  qed
qed

lemma area_subset:
  assumes st: "settled G N" and q: "q \<in> N"
  shows "revealArea G q \<subseteq> N"
proof (cases "mineAt G q")
  case True
  with st q have "{p. mineAt G p} \<subseteq> N" unfolding settled_def by blast
  with True q show ?thesis by (simp add: revealArea_def)
next
  case False
  show ?thesis
  proof (cases "blankCell G q")
    case True
    have "floodArea G q \<subseteq> N"
    proof
      fix p assume "p \<in> floodArea G q"
      then consider "p \<in> blankRegion G q"
        | z where "openCell G p" "z \<in> blankRegion G q" "adjacent8 z p"
        by (auto simp: floodArea_def)
      then show "p \<in> N"
      proof cases
        case 1
        with settled_region[OF st q True] show ?thesis by blast
      next
        case 2
        from settled_region[OF st q True] 2(2) have "z \<in> N" by blast
        moreover from blankRegion_blank[OF True 2(2)] have "blankCell G z" .
        ultimately show ?thesis using st 2(1,3) unfolding settled_def by blast
      qed
    qed
    with False True show ?thesis by (simp add: revealArea_def)
  next
    case notblank: False
    with False q show ?thesis by (simp add: revealArea_def)
  qed
qed

lemma uncovers_blank:
  assumes "uncovers G N g"
  shows "blankCell g q \<longleftrightarrow> blankCell G q \<and> q \<notin> N"
proof -
  from assms have "cellAt g (fst q) (snd q) =
      map_option (\<lambda>x. if q \<in> N then x\<lparr>isRevealed := True\<rparr> else x) (cellAt G (fst q) (snd q))"
    by (simp add: uncovers_def)
  then show ?thesis
    by (cases "cellAt G (fst q) (snd q)") (auto simp: blankCell_def)
qed

lemma region_fresh:
  assumes st: "settled G N" and un: "uncovers G N g" and q: "q \<notin> N" and blank: "blankCell G q"
  shows "blankRegion g q = blankRegion G q" and "blankRegion G q \<inter> N = {}"
proof -
  have fresh: "z \<notin> N \<and> z \<in> blankRegion g q" if "z \<in> blankRegion G q" for z
  proof -
    from that have "(q, z) \<in> {(a, b). adjacent8 a b \<and> blankCell G b}\<^sup>*"
      by (simp add: blankRegion_def)
    then show ?thesis
    proof (induction rule: rtrancl_induct)
      case base
      from q blankRegion_start[of q g] show ?case by simp
    next
      case (step y z)
      then have adj: "adjacent8 y z" and bz: "blankCell G z" by auto
      from step.hyps(1) have "y \<in> blankRegion G q" by (simp add: blankRegion_def)
      from blankRegion_blank[OF blank this] have "openCell G y" by (rule blankCell_open)
      have "z \<notin> N"
      proof
        assume "z \<in> N"
        with st bz adj \<open>openCell G y\<close> have "y \<in> N"
          unfolding settled_def using adjacent8_sym[of y z] by blast
        with step.IH show False by simp
      qed
      with bz uncovers_blank[OF un, of z] have "blankCell g z" by simp
      from blankRegion_step[OF _ adj this] step.IH \<open>z \<notin> N\<close> show ?case by blast
    qed
  qed
  have inG: "z \<in> blankRegion G q" if "z \<in> blankRegion g q" for z
  proof -
    from that have "(q, z) \<in> {(a, b). adjacent8 a b \<and> blankCell g b}\<^sup>*"
      by (simp add: blankRegion_def)
    then show ?thesis
    proof (induction rule: rtrancl_induct)
      case base
      show ?case by (rule blankRegion_start)
    next
      case (step y z)
      then have "adjacent8 y z" "blankCell G z" using uncovers_blank[OF un, of z] by auto
      from blankRegion_step[OF step.IH this] show ?case .
    qed
  qed
  from fresh inG show "blankRegion g q = blankRegion G q" by blast
  from fresh show "blankRegion G q \<inter> N = {}" by blast
qed

lemma area_fresh:
  assumes st: "settled G N" and un: "uncovers G N g" and q: "q \<notin> N"
  shows "N \<union> revealArea g q = N \<union> revealArea G q"
proof -
  have mines: "mineAt g = mineAt G" by (rule uncovers_mineAt[OF un])
  show ?thesis
  proof (cases "mineAt G q")
    case True
    with mines show ?thesis by (simp add: revealArea_def)
  next
    case False
    show ?thesis
    proof (cases "blankCell G q")
      case True
      with q uncovers_blank[OF un, of q] have bg: "blankCell g q" by simp
      note reg = region_fresh[OF st un q True]
      have "N \<union> floodArea g q = N \<union> floodArea G q"
        unfolding floodArea_def reg(1)
        using uncovers_open[OF un] uncovers_blank[OF un] by auto
      with False True bg mines show ?thesis by (simp add: revealArea_def)
    next
      case notblank: False
      with uncovers_blank[OF un, of q] have "\<not> blankCell g q" by simp
      with False notblank mines show ?thesis by (simp add: revealArea_def)
    qed
  qed
qed

lemma updater_exact:
  assumes wf: "wellFormed d (grid st)" and cell: "cellAt (grid st) r c = Some x"
    and cov: "\<not> isRevealed x" "\<not> isFlagged x"
  shows "\<exists>g'. revealCellUpdater d False r c st
                 = Ok (st\<lparr>grid := g',
                          gameStatus := (if isMine x then Lost else gameStatus st),
                          isTimerRunning := (if isMine x then False else isTimerRunning st)\<rparr>)
           \<and> wellFormed d g' \<and> uncovers (grid st) (revealArea (grid st) (r, c)) g'"
proof -
  let ?g1 = "updCell (grid st) r c (\<lambda>c. c\<lparr>isRevealed := True\<rparr>)"
  from cell have mine: "mineAt (grid st) (r, c) \<longleftrightarrow> isMine x" by (simp add: mineAt_def)
  from cell cov have blank: "blankCell (grid st) (r, c) \<longleftrightarrow> \<not> isMine x \<and> neighborMines x = 0"
    by (simp add: blankCell_def)
  consider (mine) "isMine x" | (blank) "\<not> isMine x" "neighborMines x = 0"
    | (number) "\<not> isMine x" "neighborMines x \<noteq> 0"
    by blast
  then show ?thesis
  proof cases
    case mine
    with cell cov have "revealCellUpdater d False r c st
        = Ok (st\<lparr>gameStatus := Lost, isTimerRunning := False, grid := revealAllMines ?g1\<rparr>)"
      by (simp add: revealCellUpdater_def Let_def)
    moreover have "wellFormed d (revealAllMines ?g1)"
      by (simp add: wellFormed_revealAllMines wellFormed_updCell[OF wf])
    moreover have "uncovers (grid st) (revealArea (grid st) (r, c)) (revealAllMines ?g1)"
      using uncovers_loss[OF cell] mine \<open>mineAt (grid st) (r, c) \<longleftrightarrow> isMine x\<close>
      by (simp add: revealArea_def)
    ultimately show ?thesis using mine by (intro exI[of _ "revealAllMines ?g1"]) simp
  next
    case blank
    with \<open>blankCell (grid st) (r, c) \<longleftrightarrow> \<not> isMine x \<and> neighborMines x = 0\<close>
    have bl: "blankCell (grid st) (r, c)" by simp
    from blank_flood[OF wf bl] obtain g' where
      fill: "floodFill d ?g1 [(r, c)] [] = Ok g'" and wf': "wellFormed d g'"
      and un: "uncovers (grid st) (floodArea (grid st) (r, c)) g'"
      by blast
    from blank cell cov fill have "revealCellUpdater d False r c st = Ok (st\<lparr>grid := g'\<rparr>)"
      by (simp add: revealCellUpdater_def Let_def)
    moreover have "revealArea (grid st) (r, c) = floodArea (grid st) (r, c)"
      using bl blank \<open>mineAt (grid st) (r, c) \<longleftrightarrow> isMine x\<close> by (simp add: revealArea_def)
    ultimately show ?thesis using blank wf' un by (intro exI[of _ g']) simp
  next
    case number
    with cell cov have "revealCellUpdater d False r c st = Ok (st\<lparr>grid := ?g1\<rparr>)"
      by (simp add: revealCellUpdater_def Let_def)
    moreover have "uncovers (grid st) {(r, c)} ?g1"
      using uncovers_updCell[OF uncovers_refl cell] by simp
    moreover have "revealArea (grid st) (r, c) = {(r, c)}"
      using number \<open>mineAt (grid st) (r, c) \<longleftrightarrow> isMine x\<close>
        \<open>blankCell (grid st) (r, c) \<longleftrightarrow> \<not> isMine x \<and> neighborMines x = 0\<close>
      by (simp add: revealArea_def)
    ultimately show ?thesis using number wellFormed_updCell[OF wf]
      by (intro exI[of _ ?g1]) simp
  qed
qed

lemma chordStep_exact:
  assumes wfG: "wellFormed d G" and wf: "wellFormed d g"
    and un: "uncovers G (\<Union> (revealArea G ` P)) g"
    and q: "q = (row + fst off, col + snd off)"
    and P1: "P1 = (if coveredCell G q then insert q P else P)"
  shows "\<exists>g1. chordStep d G False row col off (chordResult st G P g) = Ok (chordResult st G P1 g1)
           \<and> wellFormed d g1 \<and> uncovers G (\<Union> (revealArea G ` P1)) g1"
proof (cases "coveredCell G q")
  case False
  have "chordStep d G False row col off (chordResult st G P g) = Ok (chordResult st G P g)"
  proof (cases "cellAt G (fst q) (snd q)")
    case None
    with wellFormed_cellAt[OF wfG, of "fst q" "snd q"] have "\<not> inGrid d (fst q) (snd q)" by simp
    then show ?thesis by (simp add: chordStep_def Let_def case_prod_beta q)
  next
    case (Some x)
    with False have "\<not> (\<not> isRevealed x \<and> \<not> isFlagged x)" by (simp add: coveredCell_def)
    with Some show ?thesis by (auto simp: chordStep_def Let_def case_prod_beta q)
  qed
  with False wf un P1 show ?thesis by (intro exI[of _ g]) simp
next
  case True
  let ?N = "\<Union> (revealArea G ` P)"
  from True obtain x where x: "cellAt G (fst q) (snd q) = Some x" "\<not> isRevealed x" "\<not> isFlagged x"
    by (auto simp: coveredCell_def split: option.splits)
  from x(1) have mineq: "mineAt G q \<longleftrightarrow> isMine x" by (simp add: mineAt_def)
  from wellFormed_cellAt[OF wfG, of "fst q" "snd q"] x(1) have "inGrid d (fst q) (snd q)" by simp
  with x have step: "chordStep d G False row col off (chordResult st G P g)
                       = revealCellUpdater d False (fst q) (snd q) (chordResult st G P g)"
    by (simp add: chordStep_def Let_def case_prod_beta q)
  have set: "settled G ?N" by (rule settled_Union) (simp add: settled_area)
  from un have view: "cellAt g (fst q) (snd q) =
      map_option (\<lambda>x. if q \<in> ?N then x\<lparr>isRevealed := True\<rparr> else x) (cellAt G (fst q) (snd q))"
    by (simp add: uncovers_def)
  from True P1 have P1: "P1 = insert q P" by simp
  have N1: "\<Union> (revealArea G ` P1) = ?N \<union> revealArea G q" unfolding P1 by auto
  have minesP: "(\<exists>p\<in>P. mineAt G p) \<longleftrightarrow> (\<exists>p\<in>?N. mineAt G p)"
    using area_mine[of G] by blast
  show ?thesis
  proof (cases "q \<in> ?N")
    case inN: True
    with view x(1) have "cellAt (grid (chordResult st G P g)) (fst q) (snd q)
                           = Some (x\<lparr>isRevealed := True\<rparr>)"
      by (simp add: chordResult_def)
    then have "revealCellUpdater d False (fst q) (snd q) (chordResult st G P g)
                 = Ok (chordResult st G P g)"
      by (simp add: revealCellUpdater_def)
    moreover from area_subset[OF set inN] have "\<Union> (revealArea G ` P1) = ?N" unfolding N1 by blast
    moreover have "(\<exists>p\<in>P1. mineAt G p) \<longleftrightarrow> (\<exists>p\<in>P. mineAt G p)"
    proof
      assume "\<exists>p\<in>P1. mineAt G p"
      then have "mineAt G q \<or> (\<exists>p\<in>P. mineAt G p)" unfolding P1 by blast
      moreover have "\<exists>p\<in>P. mineAt G p" if "mineAt G q"
        using that inN minesP by blast
      ultimately show "\<exists>p\<in>P. mineAt G p" by blast
    next
      assume "\<exists>p\<in>P. mineAt G p"
      then show "\<exists>p\<in>P1. mineAt G p" unfolding P1 by blast
    qed
    then have "chordResult st G P1 g = chordResult st G P g" by (simp add: chordResult_def)
    ultimately show ?thesis using step wf un by (intro exI[of _ g]) simp
  next
    case False
    with view x(1) have y: "cellAt (grid (chordResult st G P g)) (fst q) (snd q) = Some x"
      by (simp add: chordResult_def)
    have wfc: "wellFormed d (grid (chordResult st G P g))" using wf by (simp add: chordResult_def)
    from updater_exact[OF wfc y x(2,3)] obtain g1 where
      run: "revealCellUpdater d False (fst q) (snd q) (chordResult st G P g)
              = Ok ((chordResult st G P g)\<lparr>grid := g1,
                     gameStatus := (if isMine x then Lost else gameStatus (chordResult st G P g)),
                     isTimerRunning := (if isMine x then False
                                        else isTimerRunning (chordResult st G P g))\<rparr>)"
      and wf1: "wellFormed d g1"
      and un1: "uncovers g (revealArea g q) g1"
      by (auto simp: chordResult_def)
    from uncovers_trans[OF un un1] area_fresh[OF set un False]
    have "uncovers G (\<Union> (revealArea G ` P1)) g1" unfolding N1 by simp
    moreover have "(chordResult st G P g)\<lparr>grid := g1,
                     gameStatus := (if isMine x then Lost else gameStatus (chordResult st G P g)),
                     isTimerRunning := (if isMine x then False
                                        else isTimerRunning (chordResult st G P g))\<rparr>
                   = chordResult st G P1 g1"
      unfolding P1 using mineq by (simp add: chordResult_def)
    ultimately show ?thesis using step run wf1 by (intro exI[of _ g1]) simp
  qed
qed

lemma chord_exact:
  assumes "wellFormed d G" and "wellFormed d g" and "uncovers G (\<Union> (revealArea G ` P)) g"
  shows "\<exists>g'. forEach offs (chordStep d G False row col) (chordResult st G P g)
                 = Ok (chordResult st G
                         (P \<union> {q \<in> (\<lambda>off. (row + fst off, col + snd off)) ` set offs. coveredCell G q}) g')
           \<and> wellFormed d g'
           \<and> uncovers G (\<Union> (revealArea G `
                 (P \<union> {q \<in> (\<lambda>off. (row + fst off, col + snd off)) ` set offs. coveredCell G q}))) g'"
  using assms(2,3)
proof (induction offs arbitrary: P g)
  case Nil
  then show ?case by (intro exI[of _ g]) simp
next
  case (Cons off offs)
  let ?shift = "\<lambda>off. (row + fst off, col + snd off)"
  define P1 where "P1 = (if coveredCell G (?shift off) then insert (?shift off) P else P)"
  from chordStep_exact[OF assms(1) Cons.prems refl P1_def, where st = st] obtain g1 where
    step: "chordStep d G False row col off (chordResult st G P g) = Ok (chordResult st G P1 g1)"
    and wf1: "wellFormed d g1" and un1: "uncovers G (\<Union> (revealArea G ` P1)) g1"
    by blast
  from Cons.IH[OF wf1 un1] obtain g' where
    run: "forEach offs (chordStep d G False row col) (chordResult st G P1 g1)
            = Ok (chordResult st G (P1 \<union> {q \<in> ?shift ` set offs. coveredCell G q}) g')"
    and wf': "wellFormed d g'"
    and un': "uncovers G (\<Union> (revealArea G ` (P1 \<union> {q \<in> ?shift ` set offs. coveredCell G q}))) g'"
    by blast
  have "P1 \<union> {q \<in> ?shift ` set offs. coveredCell G q}
          = P \<union> {q \<in> ?shift ` set (off # offs). coveredCell G q}"
    by (auto simp: P1_def)
  with step run wf' un' show ?case by (intro exI[of _ g']) simp
qed

lemma reveal_uncovers_area:
  assumes "wellFormed d (grid st)" and "gameStatus st = Playing" and "\<not> firstClick st"
    and "coveredCell (grid st) (r, c)"
  shows "\<exists>st'. reveal d st r c = Ok st' \<and> uncovers (grid st) (revealArea (grid st) (r, c)) (grid st')"
proof -
  from assms(4) obtain x where x: "cellAt (grid st) r c = Some x" "\<not> isRevealed x" "\<not> isFlagged x"
    by (auto simp: coveredCell_def split: option.splits)
  from updater_exact[OF assms(1) x] obtain g' where
    "revealCellUpdater d False r c st
       = Ok (st\<lparr>grid := g', gameStatus := (if isMine x then Lost else gameStatus st),
                isTimerRunning := (if isMine x then False else isTimerRunning st)\<rparr>)"
    and "uncovers (grid st) (revealArea (grid st) (r, c)) g'"
    by blast
  with assms(2,3) show ?thesis by (simp add: reveal_def revealCell_def)
qed

lemma checkWinCondition_fields:
  "timer (checkWinCondition st) = timer st"
  "randomSource (checkWinCondition st) = randomSource st"
  by (simp_all add: checkWinCondition_def Let_def)

lemma checkWinCondition_timer:
  "isTimerRunning (checkWinCondition st) =
     (if gameStatus st = Playing \<and> grid st \<noteq> [] \<and> allSafeRevealed (grid st)
      then False else isTimerRunning st)"
  by (simp add: checkWinCondition_def all_cells_safe Let_def)

section \<open>Board generation\<close>

text \<open>
  C3. Every board that \<open>initializeGrid\<close> returns holds exactly \<open>mines\<close> mine cells; when
  both coordinates of a cell to avoid were passed, that cell is not a mine; and the
  \<open>neighborMines\<close> of every cell that is not a mine is the number of mines among its up to
  eight neighbours inside the grid. That a board is returned once the draws hold enough
  cells is \<open>initializeGrid_returns\<close>.
\<close>

theorem initializeGrid_board:
  assumes "initializeGrid d avoidRow avoidCol draws = Ok (g, rest)"
  shows "mineCount g = mines d
     \<and> (\<forall>row col cell. avoidRow = Some row \<and> avoidCol = Some col \<and> cellAt g row col = Some cell
            \<longrightarrow> \<not> isMine cell)
     \<and> (\<forall>row col cell. cellAt g row col = Some cell \<and> \<not> isMine cell
            \<longrightarrow> neighborMines cell = mineNeighbors g row col)"
  using initializeGrid_Ok(2)[OF assms] initializeGrid_Ok(3)[OF assms] by blast

theorem initializeGrid_board_witness:
  "\<exists>g rest cell. initializeGrid beginner (Some 4) (Some 4) demoDraws = Ok (g, rest)
      \<and> mineCount g = 10 \<and> cellAt g 4 4 = Some cell \<and> \<not> isMine cell
      \<and> neighborMines cell = mineNeighbors g 4 4"
proof -
  have "case initializeGrid beginner (Some 4) (Some 4) demoDraws of
          Ok (g, rest) \<Rightarrow> (case cellAt g 4 4 of Some cell \<Rightarrow> True | None \<Rightarrow> False)
        | _ \<Rightarrow> False"
    by code_simp
  then obtain g rest cell where run: "initializeGrid beginner (Some 4) (Some 4) demoDraws = Ok (g, rest)"
    and cell: "cellAt g 4 4 = Some cell"
    by (auto split: result.splits option.splits)
  from initializeGrid_board[OF run] cell
  have "mineCount g = mines beginner" "\<not> isMine cell" "neighborMines cell = mineNeighbors g 4 4"
    by blast+
  with run cell show ?thesis by (auto simp: beginner_def)
qed

text \<open>
  C2, as the code has it. \<open>initializeGrid\<close> holds no test of the configuration and raises
  no error of its own. The draws are the pairs the two \<open>Math.floor\<close> calls yield on a grid
  of at least one row and one column, so they lie in the grid. When \<open>mines\<close> exceeds the
  number of cells, or reaches it while a cell of the grid is avoided, the placement loop is
  still running after any number of draws: no board is returned and nothing is thrown.
\<close>

theorem initializeGrid_never_finishes:
  assumes valid: "\<forall>p\<in>set draws. fst p < rows d \<and> snd p < cols d"
    and over: "rows d * cols d < mines d
               \<or> (rows d * cols d \<le> mines d
                   \<and> (\<exists>r c. avoidRow = Some r \<and> avoidCol = Some c \<and> inGrid d r c))"
  shows "initializeGrid d avoidRow avoidCol draws = Pending"
proof -
  let ?box = "{..<rows d} \<times> {..<cols d}"
  have "placeMines d avoidRow avoidCol [] draws \<noteq> Ok (mp, rest)" for mp rest
  proof
    assume run: "placeMines d avoidRow avoidCol [] draws = Ok (mp, rest)"
    from placeMines_Ok[OF run] have dist: "distinct mp" and len: "length mp = mines d"
      and clean: "\<forall>p\<in>set mp. \<not> avoided avoidRow avoidCol p" and sub: "set mp \<subseteq> set draws"
      by simp_all
    from sub valid have box: "set mp \<subseteq> ?box" by fastforce
    have cardmp: "card (set mp) = mines d" using dist len by (simp add: distinct_card)
    from over show False
    proof
      assume "rows d * cols d < mines d"
      moreover have "card (set mp) \<le> card ?box" by (rule card_mono[OF _ box]) simp
      ultimately show False using cardmp by simp
    next
      assume "rows d * cols d \<le> mines d
                 \<and> (\<exists>r c. avoidRow = Some r \<and> avoidCol = Some c \<and> inGrid d r c)"
      then obtain r c where full: "rows d * cols d \<le> mines d"
        and av: "avoidRow = Some r" "avoidCol = Some c" and inb: "inGrid d r c"
        by blast
      from inb have mem: "(nat r, nat c) \<in> ?box" by (auto simp: inGrid_def)
      from inb av have "avoided avoidRow avoidCol (nat r, nat c)"
        by (simp add: avoided_def inGrid_def)
      with clean have "(nat r, nat c) \<notin> set mp" by blast
      with box have "set mp \<subseteq> ?box - {(nat r, nat c)}" by blast
      then have "card (set mp) \<le> card (?box - {(nat r, nat c)})"
        by (rule card_mono[rotated]) simp
      also have "\<dots> = rows d * cols d - 1" using mem by simp
      also have "\<dots> < rows d * cols d" using mem by (cases "rows d * cols d") auto
      finally show False using cardmp full by simp
    qed
  qed
  with placeMines_result_cases[of d avoidRow avoidCol "[]" draws]
  have "placeMines d avoidRow avoidCol [] draws = Pending" by blast
  then show ?thesis by (simp add: initializeGrid_def)
qed

theorem initializeGrid_never_finishes_witness:
  "initializeGrid \<lparr>name = ''Full'', rows = 2, cols = 2, mines = 4\<rparr> (Some 0) (Some 0)
     [(0, 1), (1, 0), (1, 1), (0, 0), (0, 1), (1, 1)] = Pending"
  by (rule initializeGrid_never_finishes) (simp_all add: inGrid_def)

text \<open>
  With as many mines as cells and no cell to avoid the loop does end, and the board of
  mines only is returned where the claim asks for a failure.
\<close>

theorem generate_full_board_counterexample:
  "initializeGrid \<lparr>name = ''Full'', rows = 1, cols = 1, mines = 1\<rparr> None None [(0, 0)]
     = Ok ([[\<lparr>isMine = True, isRevealed = False, isFlagged = False, neighborMines = 0\<rparr>]], [])"
  by code_simp

section \<open>The first click\<close>

text \<open>
  C1, as the code has it. The first \<open>reveal\<close> of a fresh game returns the board that
  \<open>initializeGrid\<close> generates with the clicked cell avoided, and returns it as generated:
  no cell of it is revealed, the clicked cell included. The claim's reveal of the clicked
  cell on the regenerated board does not take place.
\<close>

theorem first_reveal_only_regenerates:
  assumes "gameStatus st = Playing" and "firstClick st" and "reveal d st row col = Ok st'"
  shows "(\<exists>rest. initializeGrid d (Some row) (Some col) (randomSource st) = Ok (grid st', rest))
           \<and> (\<forall>r c cell. cellAt (grid st') r c = Some cell \<longrightarrow> \<not> isRevealed cell)"
proof -
  from assms obtain g rest where
    gen: "initializeGrid d (Some row) (Some col) (randomSource st) = Ok (g, rest)"
    and st': "st' = checkWinCondition (st\<lparr>firstClick := False, isTimerRunning := True,
                  grid := g, randomSource := rest\<rparr>)"
    by (auto simp: reveal_def revealCell_def revealCellUpdater_def andThen_Ok_iff)
  from st' have "grid st' = g" by simp
  with gen initializeGrid_Ok(3)[OF gen] show ?thesis by blast
qed

theorem first_reveal_only_regenerates_witness:
  "\<exists>st st' cell. resetGame beginner demoBoot = Ok st \<and> reveal beginner st 4 4 = Ok st'
       \<and> cellAt (grid st') 4 4 = Some cell \<and> \<not> isRevealed cell"
proof -
  have "case resetGame beginner demoBoot of
          Ok st \<Rightarrow> gameStatus st = Playing \<and> firstClick st \<and>
            (case reveal beginner st 4 4 of
               Ok st' \<Rightarrow> (case cellAt (grid st') 4 4 of Some cell \<Rightarrow> True | None \<Rightarrow> False)
             | _ \<Rightarrow> False)
        | _ \<Rightarrow> False"
    by code_simp
  then obtain st st' cell where reset: "resetGame beginner demoBoot = Ok st"
    and fresh: "gameStatus st = Playing" "firstClick st"
    and run: "reveal beginner st 4 4 = Ok st'" and cell: "cellAt (grid st') 4 4 = Some cell"
    by (auto split: result.splits option.splits)
  from first_reveal_only_regenerates[OF fresh run] cell have "\<not> isRevealed cell" by blast
  with reset run cell show ?thesis by blast
qed

section \<open>Revealing a cell\<close>

text \<open>
  C5. In a game that is being played and is past its first click, the command \<open>reveal\<close> on
  a concealed, unflagged mine returns, sets the status to \<open>Lost\<close>, and leaves every mine of
  the board revealed.
\<close>

theorem reveal_mine_loses:
  assumes "gameStatus st = Playing" and "\<not> firstClick st"
    and "cellAt (grid st) row col = Some cell"
    and "\<not> isRevealed cell" and "\<not> isFlagged cell" and "isMine cell"
  shows "\<exists>st'. reveal d st row col = Ok st' \<and> gameStatus st' = Lost
           \<and> (\<forall>r c x. cellAt (grid st') r c = Some x \<and> isMine x \<longrightarrow> isRevealed x)"
proof -
  define st' where "st' = st\<lparr>gameStatus := Lost, isTimerRunning := False,
      grid := revealAllMines (updCell (grid st) row col (\<lambda>c. c\<lparr>isRevealed := True\<rparr>))\<rparr>"
  from assms have "revealCell d st row col = Ok st'"
    by (simp add: revealCell_def revealCellUpdater_def st'_def Let_def)
  moreover have "checkWinCondition st' = st'"
    by (simp add: checkWinCondition_def st'_def)
  ultimately have run: "reveal d st row col = Ok st'" by (simp add: reveal_def)
  have "isRevealed x" if "cellAt (grid st') r c = Some x" "isMine x" for r c x
  proof -
    from that(1) obtain y where "x = (if isMine y then y\<lparr>isRevealed := True\<rparr> else y)"
      by (auto simp: st'_def cellAt_revealAllMines)
    with that(2) show ?thesis by (cases "isMine y") simp_all
  qed
  with run show ?thesis by (auto simp: st'_def)
qed

theorem reveal_mine_loses_witness:
  "\<exists>st'. reveal tiny tinyGame 0 0 = Ok st' \<and> gameStatus st' = Lost
           \<and> map_option isRevealed (cellAt (grid st') 0 0) = Some True"
proof -
  have "\<exists>st'. reveal tiny tinyGame 0 0 = Ok st' \<and> gameStatus st' = Lost
           \<and> (\<forall>r c x. cellAt (grid st') r c = Some x \<and> isMine x \<longrightarrow> isRevealed x)"
    by (rule reveal_mine_loses[where cell = mineCell])
       (simp_all add: tinyGame_def tinyGrid_def mineCell_def cellAt_def)
  then obtain st' where run: "reveal tiny tinyGame 0 0 = Ok st'" and lost: "gameStatus st' = Lost"
    and shown: "\<forall>r c x. cellAt (grid st') r c = Some x \<and> isMine x \<longrightarrow> isRevealed x"
    by blast
  have "case reveal tiny tinyGame 0 0 of
          Ok s \<Rightarrow> map_option isMine (cellAt (grid s) 0 0) = Some True | _ \<Rightarrow> False"
    by code_simp
  with run obtain x where "cellAt (grid st') 0 0 = Some x" "isMine x" by auto
  with shown have "map_option isRevealed (cellAt (grid st') 0 0) = Some True" by auto
  with run lost show ?thesis by blast
qed

section \<open>Reveals that change nothing\<close>

text \<open>
  C8. \<open>revealCell\<close> returns the state unchanged when the game is not being played, and, past
  the first click, when the cell is revealed or flagged; past the first click, flagging a
  concealed cell and then revealing it leaves it flagged and concealed. On the first click
  of a fresh game the guard on the cell is not reached: the branch of the first click comes
  before it in the updater. There, the reveal of a flagged cell does not return the state it
  was given, and no cell of the board it returns is flagged.
\<close>

theorem revealCell_guards:
  "(gameStatus st \<noteq> Playing \<longrightarrow> revealCell d st row col = Ok st)
   \<and> (\<not> firstClick st \<and> cellAt (grid st) row col = Some cell
        \<and> (isRevealed cell \<or> isFlagged cell) \<longrightarrow> revealCell d st row col = Ok st)
   \<and> (gameStatus st = Playing \<and> \<not> firstClick st \<and> cellAt (grid st) row col = Some cell
        \<and> \<not> isRevealed cell \<and> \<not> isFlagged cell \<longrightarrow>
        (\<exists>st1 cell1. toggleFlag st row col = Ok st1 \<and> revealCell d st1 row col = Ok st1
           \<and> cellAt (grid st1) row col = Some cell1 \<and> isFlagged cell1 \<and> \<not> isRevealed cell1))
   \<and> (gameStatus st = Playing \<and> firstClick st \<and> cellAt (grid st) row col = Some cell
        \<and> (isRevealed cell \<or> isFlagged cell) \<longrightarrow>
        revealCell d st row col \<noteq> Ok st
        \<and> (\<forall>st'. revealCell d st row col = Ok st' \<longrightarrow>
              (\<forall>r c x. cellAt (grid st') r c = Some x \<longrightarrow> \<not> isFlagged x)))"
proof (intro conjI impI allI)
  assume "gameStatus st \<noteq> Playing"
  then show "revealCell d st row col = Ok st" by (simp add: revealCell_def)
next
  assume "\<not> firstClick st \<and> cellAt (grid st) row col = Some cell
        \<and> (isRevealed cell \<or> isFlagged cell)"
  then show "revealCell d st row col = Ok st"
    by (auto simp: revealCell_def revealCellUpdater_def)
next
  assume a: "gameStatus st = Playing \<and> \<not> firstClick st \<and> cellAt (grid st) row col = Some cell
        \<and> \<not> isRevealed cell \<and> \<not> isFlagged cell"
  then have cell: "cellAt (grid st) row col = Some cell" by simp
  define st1 where "st1 = st\<lparr>grid := updCell (grid st) row col (\<lambda>c. c\<lparr>isFlagged := \<not> isFlagged c\<rparr>)\<rparr>"
  from a have flag: "toggleFlag st row col = Ok st1" by (simp add: toggleFlag_def st1_def)
  have at: "cellAt (grid st1) row col = Some (cell\<lparr>isFlagged := \<not> isFlagged cell\<rparr>)"
    by (simp add: st1_def cellAt_updCell[OF cell])
  with a have "revealCell d st1 row col = Ok st1"
    by (simp add: revealCell_def revealCellUpdater_def) (simp add: st1_def)
  with flag at a show "\<exists>st1 cell1. toggleFlag st row col = Ok st1 \<and> revealCell d st1 row col = Ok st1
           \<and> cellAt (grid st1) row col = Some cell1 \<and> isFlagged cell1 \<and> \<not> isRevealed cell1"
    by auto
next
  assume fresh: "gameStatus st = Playing \<and> firstClick st \<and> cellAt (grid st) row col = Some cell
        \<and> (isRevealed cell \<or> isFlagged cell)"
  show "revealCell d st row col \<noteq> Ok st"
  proof
    assume "revealCell d st row col = Ok st"
    with fresh obtain g rest where
      "st\<lparr>firstClick := False, isTimerRunning := True, grid := g, randomSource := rest\<rparr> = st"
      by (auto simp: revealCell_def revealCellUpdater_def andThen_Ok_iff)
    then have "firstClick (st\<lparr>firstClick := False, isTimerRunning := True, grid := g,
                 randomSource := rest\<rparr>) = firstClick st"
      by (rule arg_cong)
    with fresh show False by simp
  qed
next
  fix st' r c x
  assume fresh: "gameStatus st = Playing \<and> firstClick st \<and> cellAt (grid st) row col = Some cell
        \<and> (isRevealed cell \<or> isFlagged cell)"
    and run: "revealCell d st row col = Ok st'" and x: "cellAt (grid st') r c = Some x"
  from fresh run obtain g rest where
    gen: "initializeGrid d (Some row) (Some col) (randomSource st) = Ok (g, rest)"
    and "grid st' = g"
    by (auto simp: revealCell_def revealCellUpdater_def andThen_Ok_iff)
  with initializeGrid_Ok(3)[OF gen, of r c x] x
  show "\<not> isFlagged x" by simp
qed

theorem revealCell_guards_witness:
  "revealCell tiny (tinyGame\<lparr>gameStatus := Lost\<rparr>) 1 1 = Ok (tinyGame\<lparr>gameStatus := Lost\<rparr>)
   \<and> (\<exists>st1 cell1. toggleFlag tinyGame 1 1 = Ok st1 \<and> revealCell tiny st1 1 1 = Ok st1
          \<and> cellAt (grid st1) 1 1 = Some cell1 \<and> isFlagged cell1 \<and> \<not> isRevealed cell1)
   \<and> (\<exists>st st1 st2 cell1 cell2. resetGame beginner demoBoot = Ok st
          \<and> toggleFlag st 0 0 = Ok st1 \<and> cellAt (grid st1) 0 0 = Some cell1 \<and> isFlagged cell1
          \<and> revealCell beginner st1 0 0 = Ok st2 \<and> st2 \<noteq> st1
          \<and> cellAt (grid st2) 0 0 = Some cell2 \<and> \<not> isFlagged cell2)"
proof -
  have past: "revealCell tiny (tinyGame\<lparr>gameStatus := Lost\<rparr>) 1 1 = Ok (tinyGame\<lparr>gameStatus := Lost\<rparr>)
     \<and> (\<exists>st1 cell1. toggleFlag tinyGame 1 1 = Ok st1 \<and> revealCell tiny st1 1 1 = Ok st1
          \<and> cellAt (grid st1) 1 1 = Some cell1 \<and> isFlagged cell1 \<and> \<not> isRevealed cell1)"
    using revealCell_guards[of "tinyGame\<lparr>gameStatus := Lost\<rparr>" tiny 1 1 "safeCell 1"]
      revealCell_guards[of tinyGame tiny 1 1 "safeCell 1"]
    by (simp add: tinyGame_def tinyGrid_def safeCell_def cellAt_def)
  have "case resetGame beginner demoBoot of
          Ok st \<Rightarrow>
            (case toggleFlag st 0 0 of
               Ok st1 \<Rightarrow> gameStatus st1 = Playing \<and> firstClick st1 \<and>
                 (case cellAt (grid st1) 0 0 of
                    Some cell1 \<Rightarrow> isFlagged cell1 \<and>
                      (case revealCell beginner st1 0 0 of
                         Ok st2 \<Rightarrow> (case cellAt (grid st2) 0 0 of Some cell2 \<Rightarrow> True | None \<Rightarrow> False)
                       | _ \<Rightarrow> False)
                  | None \<Rightarrow> False)
             | _ \<Rightarrow> False)
        | _ \<Rightarrow> False"
    by code_simp
  then obtain st st1 st2 cell1 cell2 where reset: "resetGame beginner demoBoot = Ok st"
    and flag: "toggleFlag st 0 0 = Ok st1"
    and fresh: "gameStatus st1 = Playing" "firstClick st1"
    and cell1: "cellAt (grid st1) 0 0 = Some cell1" "isFlagged cell1"
    and run: "revealCell beginner st1 0 0 = Ok st2"
    and cell2: "cellAt (grid st2) 0 0 = Some cell2"
    by (auto split: result.splits option.splits)
  from revealCell_guards[of st1 beginner 0 0 cell1] fresh cell1
  have differs: "revealCell beginner st1 0 0 \<noteq> Ok st1"
    and noflags: "\<forall>st'. revealCell beginner st1 0 0 = Ok st' \<longrightarrow>
              (\<forall>r c x. cellAt (grid st') r c = Some x \<longrightarrow> \<not> isFlagged x)"
    by blast+
  from differs run have "st2 \<noteq> st1" by auto
  moreover from noflags run cell2 have "\<not> isFlagged cell2" by blast
  ultimately show ?thesis using past reset flag cell1 run cell2 by blast
qed

text \<open>
  On a fresh Beginner game the flag does not protect the cell: after the flag is set at the
  first cell, the reveal there, the first click of the game, returns another state, and
  the cell comes out of it unflagged.
\<close>

theorem flag_then_first_reveal_counterexample:
  "andThen (resetGame beginner demoBoot) (\<lambda>st.
   andThen (toggleFlag st 0 0) (\<lambda>st1.
   andThen (revealCell beginner st1 0 0) (\<lambda>st2.
     Ok (firstClick st1,
         map_option isFlagged (cellAt (grid st1) 0 0),
         st2 = st1,
         map_option isFlagged (cellAt (grid st2) 0 0)))))
     = Ok (True, Some True, False, Some False)"
  by code_simp

section \<open>Coordinates outside the grid\<close>

text \<open>
  C9, as the code has it. There is no bounds check and no error of the component's own.
  With coordinates outside a well-formed grid, all three handlers return the state
  unchanged and without an error when the game is not being played; while it is being
  played, \<open>toggleFlag\<close> and \<open>revealAdjacent\<close>, and \<open>revealCell\<close> past the first click, throw
  the TypeError of reading a property of \<open>undefined\<close> and produce no state.
\<close>

theorem out_of_grid_commands:
  assumes "wellFormed d (grid st)" and "\<not> inGrid d row col"
  shows "(gameStatus st \<noteq> Playing \<longrightarrow>
            revealCell d st row col = Ok st \<and> toggleFlag st row col = Ok st
            \<and> revealAdjacent d st row col = Ok st)
       \<and> (gameStatus st = Playing \<longrightarrow>
            toggleFlag st row col = Throws TypeError
            \<and> revealAdjacent d st row col = Throws TypeError
            \<and> (\<not> firstClick st \<longrightarrow> revealCell d st row col = Throws TypeError))"
proof -
  from wellFormed_cellAt[OF assms(1), of row col] assms(2)
  have "cellAt (grid st) row col = None" by simp
  then show ?thesis
    by (simp add: revealCell_def revealCellUpdater_def toggleFlag_def revealAdjacent_def)
qed

theorem out_of_grid_commands_witness:
  "toggleFlag tinyGame 3 0 = Throws TypeError
     \<and> revealAdjacent tiny tinyGame 0 (-1) = Throws TypeError
     \<and> revealCell tiny tinyGame (-1) 0 = Throws TypeError
     \<and> revealCell tiny (tinyGame\<lparr>gameStatus := Won\<rparr>) (-1) 0 = Ok (tinyGame\<lparr>gameStatus := Won\<rparr>)"
proof -
  have wf: "wellFormed tiny (grid tinyGame)" "wellFormed tiny (grid (tinyGame\<lparr>gameStatus := Won\<rparr>))"
    by (simp_all add: tinyGame_def wellFormed_tinyGrid)
  have out: "\<not> inGrid tiny 3 0" "\<not> inGrid tiny 0 (-1)" "\<not> inGrid tiny (-1) 0"
    by (simp_all add: inGrid_def tiny_def)
  have st: "gameStatus tinyGame = Playing" "\<not> firstClick tinyGame"
    "gameStatus (tinyGame\<lparr>gameStatus := Won\<rparr>) \<noteq> Playing"
    by (simp_all add: tinyGame_def)
  from out_of_grid_commands[OF wf(1) out(1)] out_of_grid_commands[OF wf(1) out(2)]
    out_of_grid_commands[OF wf(1) out(3)] out_of_grid_commands[OF wf(2) out(3)] st
  show ?thesis by simp
qed

text \<open>
  The first click of a fresh Beginner game at a row outside the grid raises nothing and
  replaces the board: the cell in row 1, column 1 was a mine and is none afterwards.
\<close>

theorem first_reveal_outside_counterexample:
  "andThen (resetGame beginner demoBoot) (\<lambda>st.
   andThen (revealCell beginner st (-1) 0) (\<lambda>st'.
     Ok (firstClick st, firstClick st',
         map_option isMine (cellAt (grid st) 1 1),
         map_option isMine (cellAt (grid st') 1 1))))
     = Ok (True, False, Some True, Some False)"
  by code_simp

section \<open>toggleFlag\<close>

text \<open>
  C10. At a position of the grid, \<open>toggleFlag\<close> applied twice gives the state back: two
  flips of the flag of a concealed cell while playing, or two calls that change nothing.
  Where the state was at rest under the win check before, it is at rest between the two
  calls as well, so the render in between changes nothing.
\<close>

theorem toggleFlag_twice:
  assumes "cellAt (grid st) row col = Some cell"
  shows "\<exists>st1. toggleFlag st row col = Ok st1 \<and> toggleFlag st1 row col = Ok st
           \<and> (checkWinCondition st = st \<longrightarrow> checkWinCondition st1 = st1)"
proof (cases "gameStatus st = Playing \<and> \<not> isRevealed cell")
  case False
  with assms have "toggleFlag st row col = Ok st" by (auto simp: toggleFlag_def)
  then show ?thesis by simp
next
  case True
  let ?flip = "\<lambda>c. c\<lparr>isFlagged := \<not> isFlagged c\<rparr>"
  define st1 where "st1 = st\<lparr>grid := updCell (grid st) row col ?flip\<rparr>"
  from True assms have first: "toggleFlag st row col = Ok st1"
    by (simp add: toggleFlag_def st1_def)
  have view: "cellAt (grid st1) r c = (if r = row \<and> c = col then Some (?flip cell) else cellAt (grid st) r c)" for r c
    by (simp add: st1_def cellAt_updCell[OF assms])
  have "updCell (grid st1) row col ?flip = updCell (grid st) row col (\<lambda>x. ?flip (?flip x))"
    by (simp add: st1_def updCell_updCell[OF assms])
  also have "\<dots> = grid st" by (rule updCell_same[OF assms]) simp
  finally have undo: "st1\<lparr>grid := updCell (grid st1) row col ?flip\<rparr> = st" by (simp add: st1_def)
  from True view[of row col] have second: "toggleFlag st1 row col = Ok st"
    by (simp add: toggleFlag_def undo) (simp add: st1_def)
  have "map_option (\<lambda>x. (isMine x, isRevealed x)) (cellAt (grid st1) r c)
          = map_option (\<lambda>x. (isMine x, isRevealed x)) (cellAt (grid st) r c)" for r c
    using assms by (cases "r = row \<and> c = col") (auto simp: view)
  then have same: "allSafeRevealed (grid st1) = allSafeRevealed (grid st)"
    by (rule allSafeRevealed_cong)
  have "length (grid st1) = length (grid st)" by (simp add: st1_def)
  then have "grid st1 \<noteq> [] \<longleftrightarrow> grid st \<noteq> []" by (metis length_0_conv)
  moreover have "gameStatus st1 = gameStatus st" by (simp add: st1_def)
  ultimately have "checkWinCondition st = st \<longrightarrow> checkWinCondition st1 = st1"
    unfolding checkWinCondition_fixed same by simp
  with first second show ?thesis by blast
qed

theorem toggleFlag_twice_witness:
  "\<exists>st1. toggleFlag tinyGame 1 1 = Ok st1 \<and> toggleFlag st1 1 1 = Ok tinyGame"
proof -
  have "cellAt (grid tinyGame) 1 1 = Some (safeCell 1)"
    by (simp add: tinyGame_def tinyGrid_def cellAt_def)
  from toggleFlag_twice[OF this] show ?thesis by blast
qed

section \<open>The flood fill\<close>

text \<open>
  C6. A blank cell is a cell of the grid that is concealed, unflagged, not a mine and has
  no mine among its neighbours (its count is zero; the count is only given a meaning on
  cells that are not mines). In a game that is being played and is past its first click,
  on a well-formed grid, the command \<open>reveal\<close> on a blank cell returns, and the cells it
  reveals are exactly those of \<open>floodArea\<close>: the greatest region of blank cells connected
  to the clicked cell by steps to one of the eight neighbours, and the concealed,
  unflagged cells with a count other than zero that border this region. Every other cell
  is left as it was; in particular no mine becomes revealed. The grid of every state of a
  game is well formed (\<open>reachable_facts\<close>).
\<close>

theorem reveal_blank_floods:
  assumes "wellFormed d (grid st)" and "gameStatus st = Playing" and "\<not> firstClick st"
    and "blankCell (grid st) (row, col)"
  shows "\<exists>st'. reveal d st row col = Ok st'
           \<and> (\<forall>r c. cellAt (grid st') r c =
                  map_option (\<lambda>x. if (r, c) \<in> floodArea (grid st) (row, col)
                                  then x\<lparr>isRevealed := True\<rparr> else x) (cellAt (grid st) r c))
           \<and> (\<forall>r c x y. cellAt (grid st) r c = Some x \<and> isMine x \<and> cellAt (grid st') r c = Some y
                  \<longrightarrow> isRevealed y = isRevealed x)"
proof -
  from assms(4) obtain cell where cell: "cellAt (grid st) row col = Some cell"
    and op: "\<not> isRevealed cell" "\<not> isFlagged cell" "\<not> isMine cell" "neighborMines cell = 0"
    by (auto simp: blankCell_def split: option.splits)
  from blank_flood[OF assms(1,4)] obtain g' where
    fill: "floodFill d (updCell (grid st) row col (\<lambda>c. c\<lparr>isRevealed := True\<rparr>)) [(row, col)] [] = Ok g'"
    and un: "uncovers (grid st) (floodArea (grid st) (row, col)) g'"
    by blast
  from assms(2,3) cell op fill have "revealCell d st row col = Ok (st\<lparr>grid := g'\<rparr>)"
    by (simp add: revealCell_def revealCellUpdater_def Let_def)
  then have run: "reveal d st row col = Ok (checkWinCondition (st\<lparr>grid := g'\<rparr>))"
    by (simp add: reveal_def)
  have view: "cellAt g' r c =
      map_option (\<lambda>x. if (r, c) \<in> floodArea (grid st) (row, col)
                       then x\<lparr>isRevealed := True\<rparr> else x) (cellAt (grid st) r c)" for r c
    using un by (simp add: uncovers_def)
  have mines: "isRevealed y = isRevealed x"
    if "cellAt (grid st) r c = Some x" "isMine x" "cellAt g' r c = Some y" for r c x y
  proof -
    have "(r, c) \<notin> floodArea (grid st) (row, col)"
    proof
      assume "(r, c) \<in> floodArea (grid st) (row, col)"
      then have "openCell (grid st) (r, c)"
        using reach_open[of "(r, c)" "grid st" "(row, col)"] reach_floodArea[OF assms(4)] by simp
      with that(1,2) show False by (simp add: openCell_def)
    qed
    with view[of r c] that show ?thesis by simp
  qed
  show ?thesis
  proof (intro exI conjI)
    show "reveal d st row col = Ok (checkWinCondition (st\<lparr>grid := g'\<rparr>))" by (rule run)
    show "\<forall>r c. cellAt (grid (checkWinCondition (st\<lparr>grid := g'\<rparr>))) r c =
                  map_option (\<lambda>x. if (r, c) \<in> floodArea (grid st) (row, col)
                                  then x\<lparr>isRevealed := True\<rparr> else x) (cellAt (grid st) r c)"
      using view by simp
    show "\<forall>r c x y. cellAt (grid st) r c = Some x \<and> isMine x
             \<and> cellAt (grid (checkWinCondition (st\<lparr>grid := g'\<rparr>))) r c = Some y
                  \<longrightarrow> isRevealed y = isRevealed x"
      using mines by simp blast
  qed
qed

lemma tinyGame_flood:
  "reveal tiny tinyGame 2 2
     = Ok (tinyGame\<lparr>gameStatus := Won, isTimerRunning := False,
             grid := [[mineCell, (safeCell 1)\<lparr>isRevealed := True\<rparr>, (safeCell 0)\<lparr>isRevealed := True\<rparr>],
                      [(safeCell 1)\<lparr>isRevealed := True\<rparr>, (safeCell 1)\<lparr>isRevealed := True\<rparr>,
                       (safeCell 0)\<lparr>isRevealed := True\<rparr>],
                      [(safeCell 0)\<lparr>isRevealed := True\<rparr>, (safeCell 0)\<lparr>isRevealed := True\<rparr>,
                       (safeCell 0)\<lparr>isRevealed := True\<rparr>]]\<rparr>)"
  by code_simp

theorem reveal_blank_floods_witness:
  "\<exists>st'. reveal tiny tinyGame 2 2 = Ok st'
      \<and> (\<forall>r c. cellAt (grid st') r c =
                  map_option (\<lambda>x. if (r, c) \<in> floodArea (grid tinyGame) (2, 2)
                                  then x\<lparr>isRevealed := True\<rparr> else x) (cellAt (grid tinyGame) r c))"
proof -
  have "wellFormed tiny (grid tinyGame)" by (simp add: tinyGame_def wellFormed_tinyGrid)
  moreover have "gameStatus tinyGame = Playing" "\<not> firstClick tinyGame"
    by (simp_all add: tinyGame_def)
  moreover have "blankCell (grid tinyGame) (2, 2)"
    by (simp add: blankCell_def tinyGame_def tinyGrid_def safeCell_def cellAt_def)
  ultimately show ?thesis using reveal_blank_floods[of tiny tinyGame 2 2] by blast
qed

section \<open>The win check\<close>

text \<open>
  C4. Take a game that is being played and at rest (the win check has run on it), and a
  \<open>reveal\<close> at a position of the grid that returns. Then the status after the command is
  \<open>Won\<close> exactly when every cell of the resulting board that is not a mine is revealed.
  The condition reads the \<open>isRevealed\<close> of the cells that are not mines and nothing else:
  no flag, and no mine, revealed or not, enters it. Every state of a game is at rest
  (\<open>reachable_facts\<close>).
\<close>

theorem reveal_wins_iff:
  assumes "gameStatus st = Playing" and "checkWinCondition st = st" and "inGrid d row col"
    and "reveal d st row col = Ok st'"
  shows "gameStatus st' = Won
           \<longleftrightarrow> (\<forall>r c cell. cellAt (grid st') r c = Some cell \<longrightarrow> \<not> isMine cell \<longrightarrow> isRevealed cell)"
proof -
  from assms(4) obtain st1 where handler: "revealCell d st row col = Ok st1"
    and st': "st' = checkWinCondition st1"
    by (auto simp: reveal_def andThen_Ok_iff)
  have goal: "?thesis \<longleftrightarrow> (gameStatus st' = Won \<longleftrightarrow> allSafeRevealed (grid st1))"
    by (simp add: st' allSafeRevealed_def)
  have fresh: "gameStatus st' = Won \<longleftrightarrow> allSafeRevealed (grid st1)"
    if "gameStatus st1 = Playing" "grid st1 \<noteq> []"
    using that by (simp add: st' checkWinCondition_status)
  from assms(1,2) have rest: "grid st = [] \<or> \<not> allSafeRevealed (grid st)"
    by (auto simp: checkWinCondition_fixed)
  have "gameStatus st' = Won \<longleftrightarrow> allSafeRevealed (grid st1)"
  proof (cases "firstClick st")
    case True
    with handler assms(1) obtain g rest where
      gen: "initializeGrid d (Some row) (Some col) (randomSource st) = Ok (g, rest)"
      and st1: "st1 = st\<lparr>firstClick := False, isTimerRunning := True, grid := g, randomSource := rest\<rparr>"
      by (auto simp: revealCell_def revealCellUpdater_def andThen_Ok_iff)
    from wellFormed_cellAt[OF initializeGrid_Ok(1)[OF gen], of row col] assms(3)
    obtain cell where "cellAt g row col = Some cell" by auto
    then have "g \<noteq> []" by (rule cellAt_nonempty)
    with st1 assms(1) show ?thesis by (intro fresh) simp_all
  next
    case False
    with handler assms(1) obtain cell where cell: "cellAt (grid st) row col = Some cell"
      by (cases "cellAt (grid st) row col") (auto simp: revealCell_def revealCellUpdater_def)
    then have nonempty: "grid st \<noteq> []" by (rule cellAt_nonempty)
    with rest have unsafe: "\<not> allSafeRevealed (grid st)" by simp
    let ?g1 = "updCell (grid st) row col (\<lambda>c. c\<lparr>isRevealed := True\<rparr>)"
    have len1: "length ?g1 = length (grid st)" by simp
    consider (noop) "isRevealed cell \<or> isFlagged cell"
      | (mine) "\<not> isRevealed cell" "\<not> isFlagged cell" "isMine cell"
      | (blank) "\<not> isRevealed cell" "\<not> isFlagged cell" "\<not> isMine cell" "neighborMines cell = 0"
      | (number) "\<not> isRevealed cell" "\<not> isFlagged cell" "\<not> isMine cell" "neighborMines cell \<noteq> 0"
      by blast
    then show ?thesis
    proof cases
      case noop
      with handler assms(1) False cell have "st1 = st"
        by (auto simp: revealCell_def revealCellUpdater_def)
      with assms(1,2) unsafe show ?thesis by (simp add: st')
    next
      case mine
      with handler assms(1) False cell
      have st1: "st1 = st\<lparr>gameStatus := Lost, isTimerRunning := False, grid := revealAllMines ?g1\<rparr>"
        by (simp add: revealCell_def revealCellUpdater_def Let_def)
      from unsafe obtain r c x where x: "cellAt (grid st) r c = Some x" "\<not> isMine x" "\<not> isRevealed x"
        by (auto simp: allSafeRevealed_def)
      with cell mine have "\<not> (r = row \<and> c = col)" by auto
      with x have "cellAt (revealAllMines ?g1) r c = Some x"
        by (auto simp: cellAt_revealAllMines cellAt_updCell[OF cell])
      with x have "\<not> allSafeRevealed (grid st1)" by (auto simp: allSafeRevealed_def st1)
      moreover have "gameStatus st' = Lost" by (simp add: st' st1 checkWinCondition_status)
      ultimately show ?thesis by simp
    next
      case blank
      with handler assms(1) False cell obtain filled where
        fill: "floodFill d ?g1 [(row, col)] [] = Ok filled" and st1: "st1 = st\<lparr>grid := filled\<rparr>"
        by (auto simp: revealCell_def revealCellUpdater_def Let_def andThen_Ok_iff)
      from floodFill_length[OF fill] nonempty have "filled \<noteq> []" by auto
      with st1 assms(1) show ?thesis by (intro fresh) simp_all
    next
      case number
      with handler assms(1) False cell have st1: "st1 = st\<lparr>grid := ?g1\<rparr>"
        by (simp add: revealCell_def revealCellUpdater_def Let_def)
      from nonempty have "?g1 \<noteq> []" using len1 by (metis length_0_conv)
      with st1 assms(1) show ?thesis by (intro fresh) simp_all
    qed
  qed
  with goal show ?thesis by simp
qed

theorem reveal_wins_iff_witness:
  "gameStatus tinyGame = Playing \<and> checkWinCondition tinyGame = tinyGame \<and> inGrid tiny 2 2
     \<and> (\<exists>st'. reveal tiny tinyGame 2 2 = Ok st' \<and> gameStatus st' = Won
            \<and> (\<forall>r c cell. cellAt (grid st') r c = Some cell \<longrightarrow> \<not> isMine cell \<longrightarrow> isRevealed cell))"
proof -
  have a: "gameStatus tinyGame = Playing" by (simp add: tinyGame_def)
  have b: "checkWinCondition tinyGame = tinyGame" by code_simp
  have c: "inGrid tiny 2 2" by (simp add: inGrid_def tiny_def)
  obtain st' where run: "reveal tiny tinyGame 2 2 = Ok st'" and won: "gameStatus st' = Won"
    using tinyGame_flood by simp
  from reveal_wins_iff[OF a b c run] won a b c run show ?thesis by blast
qed

section \<open>The chord\<close>

text \<open>
  C7. \<open>chordReveal\<close> is the command of the chord: the handler \<open>revealAdjacent\<close>, followed by
  the win check of the render it causes. Take a game that is being played, on a well-formed
  grid, and a target in the grid. When the target is concealed or its count is zero, the
  handler returns the state unchanged, and so does the command in a state the win check
  leaves as it is. When the number of flagged cells among the up to eight neighbours of the
  target differs from its count, the same holds: nothing is revealed and nothing is thrown.
  When the two are equal, on a revealed target with a positive count, the command returns,
  and the grid it returns is the grid it was given with exactly the cells of \<open>chordArea\<close>
  revealed: every other cell, and every other field of every cell, is as it was.
  \<open>chordArea\<close> is the union, over the neighbours that are neither revealed nor flagged, of
  what the reveal of that neighbour uncovers (\<open>revealArea\<close>, which is what the command
  \<open>reveal\<close> uncovers there, by \<open>reveal_uncovers_area\<close>): the neighbour itself, with every
  mine of the board when it is a mine, and with the area of the flood fill when it is blank.
  The status is \<open>Lost\<close> when one of these neighbours is a mine; otherwise it is \<open>Won\<close> when
  every cell that is not a mine is revealed in the result, and \<open>Playing\<close> when not. The
  timer runs on only if the game goes on; the time, the first-click mark and the random
  source are as they were. The reveals of one chord all take place: the handler looks at the
  status once, before its loop, so a mine among the neighbours does not keep the neighbours
  after it from being revealed, as it would if they were reveal commands of their own, and
  the win check runs once, after the last of them. The target itself is taken to be
  unflagged (the loop of the code counts the target's own flag too) and the game to be past
  its first click; both hold for a revealed target in every state of a game that is being
  played (\<open>reachable_facts\<close>).
\<close>

theorem chordReveal_effect:
  assumes "wellFormed d (grid st)" and "gameStatus st = Playing"
    and "cellAt (grid st) row col = Some cell"
  shows "(\<not> isRevealed cell \<or> neighborMines cell = 0 \<longrightarrow>
            revealAdjacent d st row col = Ok st
            \<and> (checkWinCondition st = st \<longrightarrow> chordReveal d st row col = Ok st))
     \<and> (\<not> isFlagged cell \<and> flaggedNeighbors (grid st) row col \<noteq> neighborMines cell \<longrightarrow>
            revealAdjacent d st row col = Ok st
            \<and> (checkWinCondition st = st \<longrightarrow> chordReveal d st row col = Ok st))
     \<and> (isRevealed cell \<and> 0 < neighborMines cell \<and> \<not> isFlagged cell \<and> \<not> firstClick st
          \<and> flaggedNeighbors (grid st) row col = neighborMines cell \<longrightarrow>
          (\<exists>st'. chordReveal d st row col = Ok st'
             \<and> (\<forall>r c. cellAt (grid st') r c =
                    map_option (\<lambda>x. if (r, c) \<in> chordArea (grid st) row col
                                    then x\<lparr>isRevealed := True\<rparr> else x) (cellAt (grid st) r c))
             \<and> gameStatus st' =
                 (if \<exists>q. adjacent8 (row, col) q \<and> coveredCell (grid st) q \<and> mineAt (grid st) q
                  then Lost
                  else if \<forall>r c x. cellAt (grid st') r c = Some x \<longrightarrow> \<not> isMine x \<longrightarrow> isRevealed x
                  then Won else Playing)
             \<and> isTimerRunning st' = (isTimerRunning st \<and> gameStatus st' = Playing)
             \<and> timer st' = timer st \<and> firstClick st' = firstClick st
             \<and> randomSource st' = randomSource st))"
proof (intro conjI impI)
  assume "\<not> isRevealed cell \<or> neighborMines cell = 0"
  with assms(2,3) show "revealAdjacent d st row col = Ok st"
    by (auto simp: revealAdjacent_def)
  then show "chordReveal d st row col = Ok st" if "checkWinCondition st = st"
    using that by (simp add: chordReveal_def)
next
  assume a: "\<not> isFlagged cell \<and> flaggedNeighbors (grid st) row col \<noteq> neighborMines cell"
  with assms(3) have "\<not> flagAt (grid st) (row, col)" by (simp add: flagAt_def)
  from flag_count[OF assms(1) this] a assms(2,3)
  show "revealAdjacent d st row col = Ok st"
    by (auto simp: revealAdjacent_def)
  then show "chordReveal d st row col = Ok st" if "checkWinCondition st = st"
    using that by (simp add: chordReveal_def)
next
  assume a: "isRevealed cell \<and> 0 < neighborMines cell \<and> \<not> isFlagged cell \<and> \<not> firstClick st
          \<and> flaggedNeighbors (grid st) row col = neighborMines cell"
  let ?G = "grid st"
  let ?P = "{q. adjacent8 (row, col) q \<and> coveredCell ?G q}"
  from a assms(3) have "\<not> flagAt ?G (row, col)" by (simp add: flagAt_def)
  from flag_count[OF assms(1) this] a assms(2,3)
  have unfold: "revealAdjacent d st row col = forEach offsets (chordStep d ?G False row col) st"
    by (simp add: revealAdjacent_def)
  have start: "chordResult st ?G {} ?G = st" by (simp add: chordResult_def)
  have "uncovers ?G (\<Union> (revealArea ?G ` {})) ?G" using uncovers_refl[of ?G] by simp
  from chord_exact[OF assms(1) assms(1) this, of offsets row col st]
  obtain g' where
    run: "forEach offsets (chordStep d ?G False row col) st
            = Ok (chordResult st ?G
                    ({} \<union> {q \<in> (\<lambda>off. (row + fst off, col + snd off)) ` set offsets. coveredCell ?G q}) g')"
    and wf': "wellFormed d g'"
    and un: "uncovers ?G (\<Union> (revealArea ?G `
               ({} \<union> {q \<in> (\<lambda>off. (row + fst off, col + snd off)) ` set offsets. coveredCell ?G q}))) g'"
    unfolding start by blast
  from a assms(3) have "\<not> coveredCell ?G (row, col)" by (simp add: coveredCell_def)
  then have P: "{q \<in> (\<lambda>off. (row + fst off, col + snd off)) ` set offsets. coveredCell ?G q} = ?P"
    using near_offsets[of _ row col] by auto
  define st1 where "st1 = chordResult st ?G ?P g'"
  from run unfold have handler: "revealAdjacent d st row col = Ok st1" by (simp add: P st1_def)
  from un have area: "uncovers ?G (chordArea ?G row col) g'" by (simp add: P chordArea_def)
  from assms(3) have "?G \<noteq> []" by (rule cellAt_nonempty)
  with assms(1) wf' have nonempty: "g' \<noteq> []" by (auto simp: wellFormed_def)
  let ?lost = "\<exists>q. adjacent8 (row, col) q \<and> coveredCell ?G q \<and> mineAt ?G q"
  have lostP: "(\<exists>q\<in>?P. mineAt ?G q) \<longleftrightarrow> ?lost" by blast
  have st1: "grid st1 = g'" "gameStatus st1 = (if ?lost then Lost else Playing)"
    "isTimerRunning st1 = (if ?lost then False else isTimerRunning st)"
    using assms(2) lostP by (auto simp: st1_def chordResult_def)
  have safe: "allSafeRevealed g' \<longleftrightarrow> (\<forall>r c x. cellAt g' r c = Some x \<longrightarrow> \<not> isMine x \<longrightarrow> isRevealed x)"
    by (simp add: allSafeRevealed_def)
  show "\<exists>st'. chordReveal d st row col = Ok st'
             \<and> (\<forall>r c. cellAt (grid st') r c =
                    map_option (\<lambda>x. if (r, c) \<in> chordArea (grid st) row col
                                    then x\<lparr>isRevealed := True\<rparr> else x) (cellAt (grid st) r c))
             \<and> gameStatus st' =
                 (if \<exists>q. adjacent8 (row, col) q \<and> coveredCell (grid st) q \<and> mineAt (grid st) q
                  then Lost
                  else if \<forall>r c x. cellAt (grid st') r c = Some x \<longrightarrow> \<not> isMine x \<longrightarrow> isRevealed x
                  then Won else Playing)
             \<and> isTimerRunning st' = (isTimerRunning st \<and> gameStatus st' = Playing)
             \<and> timer st' = timer st \<and> firstClick st' = firstClick st
             \<and> randomSource st' = randomSource st"
  proof (intro exI[of _ "checkWinCondition st1"] conjI)
    show "chordReveal d st row col = Ok (checkWinCondition st1)"
      using handler by (simp add: chordReveal_def)
    show "\<forall>r c. cellAt (grid (checkWinCondition st1)) r c =
                    map_option (\<lambda>x. if (r, c) \<in> chordArea (grid st) row col
                                    then x\<lparr>isRevealed := True\<rparr> else x) (cellAt (grid st) r c)"
      using area by (simp add: st1_def chordResult_def uncovers_def)
    show "gameStatus (checkWinCondition st1) =
             (if ?lost then Lost
              else if \<forall>r c x. cellAt (grid (checkWinCondition st1)) r c = Some x
                         \<longrightarrow> \<not> isMine x \<longrightarrow> isRevealed x
              then Won else Playing)"
    proof (cases ?lost)
      case True
      then have "gameStatus st1 = Lost" by (simp only: st1 if_True)
      then have "gameStatus (checkWinCondition st1) = Lost"
        by (simp add: checkWinCondition_status)
      with True show ?thesis by (simp only: if_True)
    next
      case False
      then have "gameStatus st1 = Playing" by (simp only: st1 if_False)
      with nonempty have "gameStatus (checkWinCondition st1)
          = (if allSafeRevealed g' then Won else Playing)"
        by (simp add: checkWinCondition_status st1(1))
      with False show ?thesis
        unfolding checkWinCondition_grid st1(1) safe[symmetric] by (simp only: if_False)
    qed
    show "isTimerRunning (checkWinCondition st1)
            = (isTimerRunning st \<and> gameStatus (checkWinCondition st1) = Playing)"
    proof (cases ?lost)
      case True
      then have "gameStatus st1 = Lost" "isTimerRunning st1 = False"
        by (simp_all only: st1 if_True)
      then show ?thesis by (simp add: checkWinCondition_status checkWinCondition_timer)
    next
      case False
      then have "gameStatus st1 = Playing" "isTimerRunning st1 = isTimerRunning st"
        by (simp_all only: st1 if_False)
      then show ?thesis using nonempty
        by (simp add: checkWinCondition_status checkWinCondition_timer st1(1))
    qed
    show "timer (checkWinCondition st1) = timer st"
      by (simp add: checkWinCondition_fields st1_def chordResult_def)
    show "firstClick (checkWinCondition st1) = firstClick st" by (simp add: st1_def chordResult_def)
    show "randomSource (checkWinCondition st1) = randomSource st"
      by (simp add: checkWinCondition_fields st1_def chordResult_def)
  qed
qed

lemma tinyChord_run:
  "chordReveal tiny tinyChord 1 1
     = Ok (tinyGame\<lparr>gameStatus := Won, isTimerRunning := False,
             grid := [[mineCell\<lparr>isFlagged := True\<rparr>, (safeCell 1)\<lparr>isRevealed := True\<rparr>,
                       (safeCell 0)\<lparr>isRevealed := True\<rparr>],
                      [(safeCell 1)\<lparr>isRevealed := True\<rparr>, (safeCell 1)\<lparr>isRevealed := True\<rparr>,
                       (safeCell 0)\<lparr>isRevealed := True\<rparr>],
                      [(safeCell 0)\<lparr>isRevealed := True\<rparr>, (safeCell 0)\<lparr>isRevealed := True\<rparr>,
                       (safeCell 0)\<lparr>isRevealed := True\<rparr>]]\<rparr>)"
  by code_simp

theorem chordReveal_effect_witness:
  "revealAdjacent tiny tinyGame 1 1 = Ok tinyGame
     \<and> revealAdjacent tiny tinyBare 1 1 = Ok tinyBare
     \<and> (\<exists>st'. chordReveal tiny tinyChord 1 1 = Ok st' \<and> gameStatus st' = Won
            \<and> \<not> (\<exists>q. adjacent8 (1, 1) q \<and> coveredCell (grid tinyChord) q
                        \<and> mineAt (grid tinyChord) q)
            \<and> \<not> isTimerRunning st')
     \<and> (\<exists>st'. chordReveal tiny tinyWrong 1 1 = Ok st' \<and> gameStatus st' = Lost
            \<and> \<not> isTimerRunning st')"
proof -
  have wf: "wellFormed tiny (grid tinyGame)" "wellFormed tiny (grid tinyChord)"
    "wellFormed tiny (grid tinyBare)" "wellFormed tiny (grid tinyWrong)"
    by code_simp+
  have playing: "gameStatus tinyGame = Playing" "gameStatus tinyChord = Playing"
    "gameStatus tinyBare = Playing" "gameStatus tinyWrong = Playing"
    by (simp_all add: tinyGame_def tinyChord_def tinyBare_def tinyWrong_def)
  have cells: "cellAt (grid tinyGame) 1 1 = Some (safeCell 1)"
    "cellAt (grid tinyChord) 1 1 = Some ((safeCell 1)\<lparr>isRevealed := True\<rparr>)"
    "cellAt (grid tinyBare) 1 1 = Some ((safeCell 1)\<lparr>isRevealed := True\<rparr>)"
    "cellAt (grid tinyWrong) 1 1 = Some ((safeCell 1)\<lparr>isRevealed := True\<rparr>)"
    by (simp_all add: tinyGame_def tinyChord_def tinyBare_def tinyWrong_def tinyGrid_def cellAt_def)
  have noflag: "\<not> flagAt (grid tinyChord) (1, 1)" "\<not> flagAt (grid tinyBare) (1, 1)"
    "\<not> flagAt (grid tinyWrong) (1, 1)"
    by code_simp+
  have n1: "flaggedNeighbors (grid tinyChord) 1 1 = 1"
    unfolding flaggedNeighbors_def around_card[of "flagAt (grid tinyChord)" 1 1, OF noflag(1), symmetric]
    by code_simp
  have n0: "flaggedNeighbors (grid tinyBare) 1 1 = 0"
    unfolding flaggedNeighbors_def around_card[of "flagAt (grid tinyBare)" 1 1, OF noflag(2), symmetric]
    by code_simp
  have n1': "flaggedNeighbors (grid tinyWrong) 1 1 = 1"
    unfolding flaggedNeighbors_def around_card[of "flagAt (grid tinyWrong)" 1 1, OF noflag(3), symmetric]
    by code_simp
  have target: "isRevealed ((safeCell 1)\<lparr>isRevealed := True\<rparr>)"
    "0 < neighborMines ((safeCell 1)\<lparr>isRevealed := True\<rparr>)"
    "\<not> isFlagged ((safeCell 1)\<lparr>isRevealed := True\<rparr>)"
    "neighborMines ((safeCell 1)\<lparr>isRevealed := True\<rparr>) = 1"
    "\<not> firstClick tinyChord" "\<not> firstClick tinyWrong"
    by (simp_all add: safeCell_def tinyChord_def tinyWrong_def tinyGame_def)
  have first: "revealAdjacent tiny tinyGame 1 1 = Ok tinyGame"
    using chordReveal_effect[OF wf(1) playing(1) cells(1)] by (simp add: safeCell_def)
  have second: "revealAdjacent tiny tinyBare 1 1 = Ok tinyBare"
    using chordReveal_effect[OF wf(3) playing(3) cells(3)] n0 by (simp add: safeCell_def)
  let ?lostC = "\<exists>q. adjacent8 (1, 1) q \<and> coveredCell (grid tinyChord) q \<and> mineAt (grid tinyChord) q"
  have "isRevealed ((safeCell 1)\<lparr>isRevealed := True\<rparr>)
      \<and> 0 < neighborMines ((safeCell 1)\<lparr>isRevealed := True\<rparr>)
      \<and> \<not> isFlagged ((safeCell 1)\<lparr>isRevealed := True\<rparr>) \<and> \<not> firstClick tinyChord
      \<and> flaggedNeighbors (grid tinyChord) 1 1 = neighborMines ((safeCell 1)\<lparr>isRevealed := True\<rparr>)"
    using target n1 by simp
  from chordReveal_effect[OF wf(2) playing(2) cells(2), THEN conjunct2, THEN conjunct2, THEN mp, OF this]
  obtain st' where run: "chordReveal tiny tinyChord 1 1 = Ok st'"
    and status: "gameStatus st' = (if ?lostC then Lost
               else if \<forall>r c x. cellAt (grid st') r c = Some x \<longrightarrow> \<not> isMine x \<longrightarrow> isRevealed x
               then Won else Playing)"
    and running: "isTimerRunning st' = (isTimerRunning tinyChord \<and> gameStatus st' = Playing)"
    by blast
  from run have won: "gameStatus st' = Won" unfolding tinyChord_run by auto
  with status have nomine: "\<not> ?lostC" by (auto split: if_splits)
  from won running have stopped: "\<not> isTimerRunning st'" by simp
  let ?lostW = "\<exists>q. adjacent8 (1, 1) q \<and> coveredCell (grid tinyWrong) q \<and> mineAt (grid tinyWrong) q"
  have "adjacent8 (1, 1) (0, 0)" by (simp add: adjacent8_def)
  moreover have "coveredCell (grid tinyWrong) (0, 0)" "mineAt (grid tinyWrong) (0, 0)"
    by code_simp+
  ultimately have mine: ?lostW by blast
  have "isRevealed ((safeCell 1)\<lparr>isRevealed := True\<rparr>)
      \<and> 0 < neighborMines ((safeCell 1)\<lparr>isRevealed := True\<rparr>)
      \<and> \<not> isFlagged ((safeCell 1)\<lparr>isRevealed := True\<rparr>) \<and> \<not> firstClick tinyWrong
      \<and> flaggedNeighbors (grid tinyWrong) 1 1 = neighborMines ((safeCell 1)\<lparr>isRevealed := True\<rparr>)"
    using target n1' by simp
  from chordReveal_effect[OF wf(4) playing(4) cells(4), THEN conjunct2, THEN conjunct2, THEN mp, OF this]
  obtain st2 where run2: "chordReveal tiny tinyWrong 1 1 = Ok st2"
    and status2: "gameStatus st2 = (if ?lostW then Lost
               else if \<forall>r c x. cellAt (grid st2) r c = Some x \<longrightarrow> \<not> isMine x \<longrightarrow> isRevealed x
               then Won else Playing)"
    and running2: "isTimerRunning st2 = (isTimerRunning tinyWrong \<and> gameStatus st2 = Playing)"
    by blast
  from status2 mine have lost: "gameStatus st2 = Lost" by (simp only: if_True)
  with running2 have "\<not> isTimerRunning st2" by simp
  with first second run won nomine stopped run2 lost show ?thesis by blast
qed

text \<open>
  The reveals of one chord do not stop at a loss. On \<open>tinyWrong\<close> the flag is on a safe cell
  and the mine at the corner is concealed and unflagged: the chord at the centre reveals
  the mine, and goes on to reveal the six safe cells around the centre that are neither
  revealed nor flagged. The same reveals given as commands of their own stop at the first
  one: the second finds the game lost and returns the state unchanged.
\<close>

lemma chord_reveals_past_loss:
  "chordReveal tiny tinyWrong 1 1
     = Ok (tinyGame\<lparr>gameStatus := Lost, isTimerRunning := False,
             grid := [[mineCell\<lparr>isRevealed := True\<rparr>, (safeCell 1)\<lparr>isFlagged := True\<rparr>,
                       (safeCell 0)\<lparr>isRevealed := True\<rparr>],
                      [(safeCell 1)\<lparr>isRevealed := True\<rparr>, (safeCell 1)\<lparr>isRevealed := True\<rparr>,
                       (safeCell 0)\<lparr>isRevealed := True\<rparr>],
                      [(safeCell 0)\<lparr>isRevealed := True\<rparr>, (safeCell 0)\<lparr>isRevealed := True\<rparr>,
                       (safeCell 0)\<lparr>isRevealed := True\<rparr>]]\<rparr>)"
  by code_simp

lemma reveal_commands_stop_at_loss:
  "andThen (reveal tiny tinyWrong 0 0) (\<lambda>st. reveal tiny st 0 2)
     = Ok (tinyGame\<lparr>gameStatus := Lost, isTimerRunning := False,
             grid := [[mineCell\<lparr>isRevealed := True\<rparr>, (safeCell 1)\<lparr>isFlagged := True\<rparr>,
                       safeCell 0],
                      [safeCell 1, (safeCell 1)\<lparr>isRevealed := True\<rparr>, safeCell 0],
                      [safeCell 0, safeCell 0, safeCell 0]]\<rparr>)"
  by code_simp

end
